theory Spec2Isabelle
  imports Main "HOL-Library.Word"
begin

section \<open>The initgroups lookup of the memory-mapped cache client\<close>

text \<open>
  A shallow embedding of \<^verbatim>\<open>src/sss_client/nss_mc_initgr.c\<close>: the two functions
  \<^verbatim>\<open>sss_nss_mc_parse_result\<close> and \<^verbatim>\<open>sss_nss_mc_initgroups_dyn\<close>.

  Conventions of the embedding.
  \<^item> Addresses are natural numbers (pointer arithmetic does not wrap).
  \<^item> \<^verbatim>\<open>long int\<close> (the cursor \<^verbatim>\<open>*start\<close>, the capacity \<^verbatim>\<open>*size\<close>, \<^verbatim>\<open>limit\<close>,
    \<^verbatim>\<open>max_ret\<close>, \<^verbatim>\<open>newsize\<close>) is \<open>int\<close>: an LP64 target is assumed, so that the
    32-bit unsigned \<^verbatim>\<open>gid_count\<close> is converted to \<^verbatim>\<open>long\<close> in the comparison of line 60,
    and signed overflow (undefined in C) is outside the model.
  \<^item> \<^verbatim>\<open>uint32_t\<close> is \<open>32 word\<close>; \<^verbatim>\<open>time_t\<close> is \<open>int\<close>.
  \<^item> Undefined behaviour of the C code is a value: a read outside the data table, a write
    outside the allocation of the result buffer and the use of a null record are
    reported as a \<open>fault\<close>.
  \<^item> The loop of line 113 has no bound; it is a \<^theory_text>\<open>partial_function\<close> in the
    option monad, \<open>None\<close> meaning that the call does not return.
  \<^item> The parameter \<^verbatim>\<open>gid_t group\<close> of \<^verbatim>\<open>sss_nss_mc_initgroups_dyn\<close> is never used by
    the code and is left out.
\<close>

subsection \<open>Status codes\<close>

text \<open>The values of \<^verbatim>\<open>errno.h\<close> on Linux; \<open>EOK\<close> is the successful return \<^verbatim>\<open>0\<close>.\<close>

definition EOK :: int where "EOK = 0"
definition ENOENT :: int where "ENOENT = 2"
definition ENOMEM :: int where "ENOMEM = 12"
definition EINVAL :: int where "EINVAL = 22"

subsection \<open>Data\<close>

type_synonym addr = nat
type_synonym byte = "8 word"
type_synonym gid_t = "32 word"

datatype fault = OOB_read | OOB_write | Null_record

text \<open>
  Modelled from the spec: \<^verbatim>\<open>struct sss_mc_rec\<close> and \<^verbatim>\<open>struct sss_mc_initgr_data\<close> are
  declared in \<^verbatim>\<open>nss_mc.h\<close> and \<^verbatim>\<open>mmap_cache.h\<close>, which are not among the sources. The
  record below holds the fields the code reads: \<^verbatim>\<open>rec->hash1\<close> (primary hash),
  \<^verbatim>\<open>rec->expire\<close>, the chain link (next slot with the same hash), the address of
  \<^verbatim>\<open>rec->data\<close> (the record address of the spec), \<^verbatim>\<open>data->name\<close> (key offset relative
  to that address), \<^verbatim>\<open>data->members\<close> (payload count) and the offset of the array
  \<^verbatim>\<open>data->gids\<close> (payload offset).
\<close>

record sss_mc_rec =
  hash1 :: "32 word"
  expire :: int
  next_same_hash :: "32 word"
  data_addr :: addr
  name_ptr :: "32 word"
  members :: "32 word"
  gids_off :: nat

text \<open>
  Modelled from the spec: \<^verbatim>\<open>struct sss_cli_mc_ctx\<close> is declared in \<^verbatim>\<open>nss_mc.h\<close>. The
  fields used by the code are \<^verbatim>\<open>data_table\<close> (arena base), \<^verbatim>\<open>dt_size\<close> (extent),
  \<^verbatim>\<open>hash_table\<close> and \<^verbatim>\<open>active_threads\<close> (reader count). Two further components
  describe the shared memory itself: \<open>mem\<close> gives the byte stored at every address (only
  the addresses of the data table are mapped), and \<open>slot_rec\<close> gives, for a slot, the
  status and the record that \<^verbatim>\<open>sss_nss_mc_get_record\<close> delivers.
\<close>

record sss_cli_mc_ctx =
  data_table :: addr
  dt_size :: "32 word"
  hash_table :: "32 word list"
  active_threads :: "32 word"
  mem :: "addr \<Rightarrow> byte"
  slot_rec :: "32 word \<Rightarrow> int \<times> sss_mc_rec"

text \<open>
  The result buffer: the three in-out parameters \<^verbatim>\<open>*start\<close>, \<^verbatim>\<open>*size\<close> and
  \<^verbatim>\<open>*groups\<close>. The list holds the cells that are really allocated.
\<close>

record gr_buf =
  start :: int
  bsize :: int
  groups :: "gid_t list"

text \<open>
  What the surroundings decide: the clock, the outcome of attaching the cache, whether
  the allocator grants a request and what it leaves in fresh cells, and the hash
  function.
\<close>

record env =
  now :: int
  attach :: int
  alloc_ok :: bool
  fresh :: gid_t
  hashf :: "byte list \<Rightarrow> nat \<Rightarrow> 32 word"

subsection \<open>Memory\<close>

definition max_addr_of :: "sss_cli_mc_ctx \<Rightarrow> addr" where
  "max_addr_of ctx = data_table ctx + unat (dt_size ctx)"

definition load_u8 :: "sss_cli_mc_ctx \<Rightarrow> addr \<Rightarrow> byte option" where
  "load_u8 ctx a =
     (if data_table ctx \<le> a \<and> a < max_addr_of ctx then Some (mem ctx a) else None)"

text \<open>
  Modelled from the spec: \<^verbatim>\<open>SAFEALIGN_COPY_UINT32\<close> (\<^verbatim>\<open>util/util_safealign.h\<close>) is the
  alignment-safe decode of four bytes into a 32-bit value; the host is little-endian.
\<close>

definition peek_u32 :: "sss_cli_mc_ctx \<Rightarrow> addr \<Rightarrow> gid_t" where
  "peek_u32 ctx a =
     word_of_nat (unat (mem ctx a) + 256 * unat (mem ctx (a + 1))
       + 65536 * unat (mem ctx (a + 2)) + 16777216 * unat (mem ctx (a + 3)))"

definition load_u32 :: "sss_cli_mc_ctx \<Rightarrow> addr \<Rightarrow> gid_t option" where
  "load_u32 ctx a =
     (if data_table ctx \<le> a \<and> a + 4 \<le> max_addr_of ctx then Some (peek_u32 ctx a) else None)"

definition gids_addr :: "sss_mc_rec \<Rightarrow> addr" where
  "gids_addr r = data_addr r + gids_off r"

text \<open>
  \<^verbatim>\<open>strcmp(name, rec_name) == 0\<close>. The first argument is the caller's string, given by
  its bytes before the terminator; the second is read from the shared memory, byte by
  byte, until the strings differ or both end.
\<close>

fun c_strcmp :: "sss_cli_mc_ctx \<Rightarrow> byte list \<Rightarrow> addr \<Rightarrow> fault + bool" where
  "c_strcmp ctx [] a =
     (case load_u8 ctx a of None \<Rightarrow> Inl OOB_read | Some b \<Rightarrow> Inr (b = 0))"
| "c_strcmp ctx (c # cs) a =
     (case load_u8 ctx a of
        None \<Rightarrow> Inl OOB_read
      | Some b \<Rightarrow>
          if b \<noteq> c then Inr False
          else if c = 0 then Inr True
          else c_strcmp ctx cs (a + 1))"

subsection \<open>The collaborators that are not among the sources\<close>

text \<open>
  Modelled from the spec: \<^verbatim>\<open>MC_SLOT_WITHIN_BOUNDS\<close> (\<^verbatim>\<open>nss_mc.h\<close>). A slot is
  dereferenced only if it lies in \<open>[0, extent)\<close>.
\<close>

definition MC_SLOT_WITHIN_BOUNDS :: "32 word \<Rightarrow> 32 word \<Rightarrow> bool" where
  "MC_SLOT_WITHIN_BOUNDS slot dtsz \<longleftrightarrow> slot < dtsz"

text \<open>
  Modelled from the spec: \<^verbatim>\<open>sss_nss_mc_get_ctx\<close> (\<^verbatim>\<open>nss_mc_common.c\<close>) acquires the
  reader count before a lookup begins; when attaching the cache fails it returns the
  status and holds no reference.
\<close>

definition sss_nss_mc_get_ctx :: "env \<Rightarrow> sss_cli_mc_ctx \<Rightarrow> int \<times> sss_cli_mc_ctx" where
  "sss_nss_mc_get_ctx e ctx =
     (if attach e \<noteq> 0 then (attach e, ctx)
      else (0, ctx\<lparr>active_threads := active_threads ctx + 1\<rparr>))"

text \<open>
  Modelled from the spec: \<^verbatim>\<open>sss_nss_mc_hash\<close> (\<^verbatim>\<open>nss_mc_common.c\<close>), the hash function,
  is an external collaborator; it is applied to the key and the length that includes
  the terminator.
\<close>

definition sss_nss_mc_hash :: "env \<Rightarrow> byte list \<Rightarrow> nat \<Rightarrow> 32 word" where
  "sss_nss_mc_hash e nm len = hashf e nm len"

text \<open>
  Modelled from the spec: \<^verbatim>\<open>sss_nss_mc_get_record\<close> (\<^verbatim>\<open>nss_mc_common.c\<close>) fetches the
  record at a slot; a status other than \<^verbatim>\<open>0\<close> means that no record was delivered.
\<close>

definition sss_nss_mc_get_record :: "sss_cli_mc_ctx \<Rightarrow> 32 word \<Rightarrow> int \<times> sss_mc_rec" where
  "sss_nss_mc_get_record ctx slot = slot_rec ctx slot"

text \<open>
  Modelled from the spec: \<^verbatim>\<open>sss_nss_mc_next_slot_with_hash\<close> (\<^verbatim>\<open>nss_mc_common.c\<close>)
  follows the in-record forward link to the next slot with the same hash.
\<close>

definition sss_nss_mc_next_slot_with_hash :: "sss_mc_rec \<Rightarrow> 32 word \<Rightarrow> 32 word" where
  "sss_nss_mc_next_slot_with_hash r h = next_same_hash r"

text \<open>
  \<^verbatim>\<open>realloc\<close> of the result buffer to \<open>n\<close> cells (line 70): the allocator either
  refuses (\<^verbatim>\<open>NULL\<close>, the old block is untouched) or returns a block that keeps the old
  cells up to the smaller of the two lengths; the cells it adds hold \<open>fresh e\<close>. A request
  that is not positive counts as refused. Such a request arises only when the cursor
  lies beyond the capacity or the capacity is negative: on a buffer with
  \<open>0 \<le> start \<le> size\<close> the growth branch asks for at least one cell.
\<close>

definition realloc_gids :: "env \<Rightarrow> gid_t list \<Rightarrow> int \<Rightarrow> gid_t list option" where
  "realloc_gids e xs n =
     (if alloc_ok e \<and> 0 < n
      then Some (take (nat n) xs @ replicate (nat n - length xs) (fresh e))
      else None)"

subsection \<open>\<^verbatim>\<open>sss_nss_mc_parse_result\<close>\<close>

text \<open>
  The loop of lines 78 to 81, with \<open>i\<close> the loop counter and \<open>n\<close> the number of
  iterations left (\<^verbatim>\<open>max_ret - i\<close>): one entry is read from \<^verbatim>\<open>data->gids + i\<close> and stored
  at \<^verbatim>\<open>(*groups)[*start]\<close>, and the cursor moves by one.
\<close>

fun copy_gids :: "sss_cli_mc_ctx \<Rightarrow> sss_mc_rec \<Rightarrow> nat \<Rightarrow> nat \<Rightarrow> gr_buf \<Rightarrow> fault + gr_buf" where
  "copy_gids ctx r i 0 buf = Inr buf"
| "copy_gids ctx r i (Suc n) buf =
     (case load_u32 ctx (gids_addr r + 4 * i) of
        None \<Rightarrow> Inl OOB_read
      | Some g \<Rightarrow>
          if 0 \<le> start buf \<and> start buf < int (length (groups buf))
          then copy_gids ctx r (Suc i) n
                 (buf\<lparr>groups := (groups buf)[nat (start buf) := g], start := start buf + 1\<rparr>)
          else Inl OOB_write)"

text \<open>
  Lines 38 to 84. An expired record returns \<^verbatim>\<open>EINVAL\<close> (lines 49 to 53). When the free
  tail is shorter than the count of members the buffer is reallocated to
  \<^verbatim>\<open>*size + gid_count\<close> cells, or to \<^verbatim>\<open>limit\<close> cells with \<^verbatim>\<open>max_ret = limit - *start\<close>
  when a positive limit is exceeded (lines 60 to 76); a refused reallocation returns
  \<^verbatim>\<open>ENOMEM\<close> before anything is assigned. Then \<^verbatim>\<open>max_ret\<close> entries are copied; a
  \<^verbatim>\<open>max_ret\<close> that is not positive copies nothing.
\<close>

definition sss_nss_mc_parse_result ::
  "env \<Rightarrow> sss_cli_mc_ctx \<Rightarrow> sss_mc_rec \<Rightarrow> gr_buf \<Rightarrow> int \<Rightarrow> fault + (int \<times> gr_buf)" where
  "sss_nss_mc_parse_result e ctx r buf limit =
     (if expire r < now e then Inr (EINVAL, buf)
      else
        let gid_count = members r;
            max_ret = uint gid_count
        in
          if bsize buf - start buf < uint gid_count then
            let newsize = bsize buf + uint gid_count;
                clamp = (limit > 0 \<and> newsize > limit);
                newsize = (if clamp then limit else newsize);
                max_ret = (if clamp then newsize - start buf else max_ret)
            in
              case realloc_gids e (groups buf) newsize of
                None \<Rightarrow> Inr (ENOMEM, buf)
              | Some newgroups \<Rightarrow>
                  map_sum id (Pair 0)
                    (copy_gids ctx r 0 (nat max_ret)
                       (buf\<lparr>groups := newgroups, bsize := newsize\<rparr>))
          else
            map_sum id (Pair 0) (copy_gids ctx r 0 (nat max_ret) buf))"

subsection \<open>\<^verbatim>\<open>sss_nss_mc_initgroups_dyn\<close>\<close>

text \<open>
  How the loop of lines 113 to 146 is left: by \<^verbatim>\<open>goto done\<close> with a status, by
  \<^verbatim>\<open>break\<close> at a slot with the record found there, or because its condition fails.
\<close>

datatype loop_exit =
  Goto_done int
| Loop_break "32 word" sss_mc_rec
| Loop_end "32 word"

text \<open>
  The integrity check of lines 134 and 135: the address of \<^verbatim>\<open>data->gids\<close>, and the
  address \<^verbatim>\<open>data + data->name + name_len\<close>, compared with \<^verbatim>\<open>max_addr\<close>.
\<close>

definition integrity_violation :: "sss_mc_rec \<Rightarrow> nat \<Rightarrow> addr \<Rightarrow> bool" where
  "integrity_violation r name_len max_addr \<longleftrightarrow>
     gids_addr r > max_addr \<or> data_addr r + unat (name_ptr r) + name_len > max_addr"

text \<open>
  The loop of lines 113 to 146, started at a slot. The \<^verbatim>\<open>rec\<close> of the previous round
  is freed and plays no further part.
\<close>

partial_function (option) mc_loop ::
  "sss_cli_mc_ctx \<Rightarrow> byte list \<Rightarrow> nat \<Rightarrow> addr \<Rightarrow> 32 word \<Rightarrow> 32 word \<Rightarrow> (fault + loop_exit) option"
where
  "mc_loop ctx nm name_len max_addr hash slot =
     (if MC_SLOT_WITHIN_BOUNDS slot (dt_size ctx) then
        (let ret = fst (sss_nss_mc_get_record ctx slot);
             r = snd (sss_nss_mc_get_record ctx slot)
         in
           if ret \<noteq> 0 then Some (Inr (Goto_done ret))
           else if hash \<noteq> hash1 r then
             mc_loop ctx nm name_len max_addr hash (sss_nss_mc_next_slot_with_hash r hash)
           else if integrity_violation r name_len max_addr then Some (Inr (Goto_done ENOENT))
           else
             (case c_strcmp ctx nm (data_addr r + unat (name_ptr r)) of
                Inl f \<Rightarrow> Some (Inl f)
              | Inr same \<Rightarrow>
                  if same then Some (Inr (Loop_break slot r))
                  else
                    mc_loop ctx nm name_len max_addr hash
                      (sss_nss_mc_next_slot_with_hash r hash)))
      else Some (Inr (Loop_end slot)))"

text \<open>The label \<^verbatim>\<open>done\<close>: the reader count is released and the status returned.\<close>

definition done_exit ::
  "sss_cli_mc_ctx \<Rightarrow> int \<Rightarrow> gr_buf \<Rightarrow> (fault + (int \<times> sss_cli_mc_ctx \<times> gr_buf)) option" where
  "done_exit ctx ret buf = Some (Inr (ret, ctx\<lparr>active_threads := active_threads ctx - 1\<rparr>, buf))"

text \<open>The read \<^verbatim>\<open>initgr_mc_ctx.hash_table[hash]\<close>.\<close>

definition hash_slot :: "sss_cli_mc_ctx \<Rightarrow> 32 word \<Rightarrow> 32 word option" where
  "hash_slot ctx hash =
     (if unat hash < length (hash_table ctx) then Some (hash_table ctx ! unat hash) else None)"

text \<open>
  Lines 86 to 159. When \<^verbatim>\<open>sss_nss_mc_get_ctx\<close> fails its status is returned at once
  (line 100). After the loop, line 148 tests the slot again: a loop left because its
  condition failed always takes the exit with \<^verbatim>\<open>ENOENT\<close>, so the other branch,
  which would hand a record that was never fetched to the extraction, is never taken.
\<close>

definition sss_nss_mc_initgroups_dyn ::
  "env \<Rightarrow> sss_cli_mc_ctx \<Rightarrow> byte list \<Rightarrow> nat \<Rightarrow> gr_buf \<Rightarrow> int
     \<Rightarrow> (fault + (int \<times> sss_cli_mc_ctx \<times> gr_buf)) option" where
  "sss_nss_mc_initgroups_dyn e ctx0 nm name_len buf limit =
     (let ret = fst (sss_nss_mc_get_ctx e ctx0);
          ctx = snd (sss_nss_mc_get_ctx e ctx0)
      in
        if ret \<noteq> 0 then Some (Inr (ret, ctx, buf))
        else
          let max_addr = data_table ctx + unat (dt_size ctx);
              hash = sss_nss_mc_hash e nm (name_len + 1)
          in
            case hash_slot ctx hash of
              None \<Rightarrow> Some (Inl OOB_read)
            | Some slot0 \<Rightarrow>
                (case mc_loop ctx nm name_len max_addr hash slot0 of
                   None \<Rightarrow> None
                 | Some (Inl f) \<Rightarrow> Some (Inl f)
                 | Some (Inr (Goto_done ret)) \<Rightarrow> done_exit ctx ret buf
                 | Some (Inr (Loop_end slot)) \<Rightarrow>
                     if \<not> MC_SLOT_WITHIN_BOUNDS slot (dt_size ctx) then done_exit ctx ENOENT buf
                     else Some (Inl Null_record)
                 | Some (Inr (Loop_break slot r)) \<Rightarrow>
                     if \<not> MC_SLOT_WITHIN_BOUNDS slot (dt_size ctx) then done_exit ctx ENOENT buf
                     else
                       (case sss_nss_mc_parse_result e ctx r buf limit of
                          Inl f \<Rightarrow> Some (Inl f)
                        | Inr (ret, buf') \<Rightarrow> done_exit ctx ret buf')))"

section \<open>Notions used to state the properties\<close>

text \<open>
  The entry \<open>k\<close> of the array \<^verbatim>\<open>data->gids\<close> of a record as the shared memory holds it,
  the first \<open>n\<close> entries, and the condition that these \<open>n\<close> entries lie inside the
  data table.
\<close>

definition gid_at :: "sss_cli_mc_ctx \<Rightarrow> sss_mc_rec \<Rightarrow> nat \<Rightarrow> gid_t" where
  "gid_at ctx r k = peek_u32 ctx (gids_addr r + 4 * k)"

definition payload_at :: "sss_cli_mc_ctx \<Rightarrow> sss_mc_rec \<Rightarrow> nat \<Rightarrow> gid_t list" where
  "payload_at ctx r n = map (gid_at ctx r) [0..<n]"

definition readable :: "sss_cli_mc_ctx \<Rightarrow> sss_mc_rec \<Rightarrow> nat \<Rightarrow> bool" where
  "readable ctx r n \<longleftrightarrow> data_table ctx \<le> gids_addr r \<and> gids_addr r + 4 * n \<le> max_addr_of ctx"

text \<open>The block that a successful \<^verbatim>\<open>realloc\<close> to \<open>n\<close> cells returns.\<close>

definition grown :: "env \<Rightarrow> gid_t list \<Rightarrow> int \<Rightarrow> gid_t list" where
  "grown e xs n = take (nat n) xs @ replicate (nat n - length xs) (fresh e)"

text \<open>
  A result buffer as the caller hands it over: the cursor lies inside the capacity, and
  the capacity is the number of allocated cells.
\<close>

definition wf_buf :: "gr_buf \<Rightarrow> bool" where
  "wf_buf buf \<longleftrightarrow> 0 \<le> start buf \<and> start buf \<le> bsize buf \<and> bsize buf = int (length (groups buf))"

text \<open>
  What one round of the loop does with the record at a slot that is within bounds and
  is fetched with status \<^verbatim>\<open>0\<close>: it is passed over (the hash differs, or the integrity
  check passes and the key differs), it is the match (\<^verbatim>\<open>break\<close>), or it fails the
  integrity check.
\<close>

definition chain_skip :: "sss_cli_mc_ctx \<Rightarrow> byte list \<Rightarrow> nat \<Rightarrow> 32 word \<Rightarrow> 32 word \<Rightarrow> bool" where
  "chain_skip ctx nm name_len hash slot \<longleftrightarrow>
     MC_SLOT_WITHIN_BOUNDS slot (dt_size ctx)
     \<and> fst (sss_nss_mc_get_record ctx slot) = 0
     \<and> (let r = snd (sss_nss_mc_get_record ctx slot) in
          hash \<noteq> hash1 r
          \<or> (\<not> integrity_violation r name_len (max_addr_of ctx)
              \<and> c_strcmp ctx nm (data_addr r + unat (name_ptr r)) = Inr False))"

definition chain_match ::
  "sss_cli_mc_ctx \<Rightarrow> byte list \<Rightarrow> nat \<Rightarrow> 32 word \<Rightarrow> 32 word \<Rightarrow> sss_mc_rec \<Rightarrow> bool" where
  "chain_match ctx nm name_len hash slot r \<longleftrightarrow>
     MC_SLOT_WITHIN_BOUNDS slot (dt_size ctx)
     \<and> sss_nss_mc_get_record ctx slot = (0, r)
     \<and> hash1 r = hash
     \<and> \<not> integrity_violation r name_len (max_addr_of ctx)
     \<and> c_strcmp ctx nm (data_addr r + unat (name_ptr r)) = Inr True"

definition chain_reject ::
  "sss_cli_mc_ctx \<Rightarrow> nat \<Rightarrow> 32 word \<Rightarrow> 32 word \<Rightarrow> bool" where
  "chain_reject ctx name_len hash slot \<longleftrightarrow>
     MC_SLOT_WITHIN_BOUNDS slot (dt_size ctx)
     \<and> fst (sss_nss_mc_get_record ctx slot) = 0
     \<and> hash1 (snd (sss_nss_mc_get_record ctx slot)) = hash
     \<and> integrity_violation (snd (sss_nss_mc_get_record ctx slot)) name_len (max_addr_of ctx)"

text \<open>The slots that the loop reaches from a slot by passing over records.\<close>

inductive chain_reaches ::
  "sss_cli_mc_ctx \<Rightarrow> byte list \<Rightarrow> nat \<Rightarrow> 32 word \<Rightarrow> 32 word \<Rightarrow> 32 word \<Rightarrow> bool"
  for ctx nm name_len hash
where
  here: "chain_reaches ctx nm name_len hash s s"
| step: "chain_skip ctx nm name_len hash s \<Longrightarrow>
         chain_reaches ctx nm name_len hash
           (sss_nss_mc_next_slot_with_hash (snd (sss_nss_mc_get_record ctx s)) hash) t \<Longrightarrow>
         chain_reaches ctx nm name_len hash s t"

code_pred chain_reaches .

text \<open>
  The hash of line 107, and the start of a lookup: the cache is attached and the hash
  table delivers the first slot.
\<close>

definition key_hash :: "env \<Rightarrow> byte list \<Rightarrow> nat \<Rightarrow> 32 word" where
  "key_hash e nm name_len = sss_nss_mc_hash e nm (name_len + 1)"

definition lookup_starts :: "env \<Rightarrow> sss_cli_mc_ctx \<Rightarrow> byte list \<Rightarrow> nat \<Rightarrow> 32 word \<Rightarrow> bool" where
  "lookup_starts e ctx nm name_len slot0 \<longleftrightarrow>
     attach e = 0 \<and> hash_slot ctx (key_hash e nm name_len) = Some slot0"

subsection \<open>Presence of a key, stated on the shared memory\<close>

text \<open>
  The notions of this subsection describe the cache itself and use none of the functions
  of the lookup. The hash of a key covers its bytes and the terminator. An entry of the
  hash table is the slot stored at the index of a hash.
\<close>

definition name_hash :: "env \<Rightarrow> byte list \<Rightarrow> 32 word" where
  "name_hash e nm = hashf e nm (length nm + 1)"

definition table_entry :: "sss_cli_mc_ctx \<Rightarrow> 32 word \<Rightarrow> 32 word \<Rightarrow> bool" where
  "table_entry ctx h s \<longleftrightarrow> unat h < length (hash_table ctx) \<and> hash_table ctx ! unat h = s"

text \<open>
  The key stored in a record is \<open>k\<close>: at the key offset the data table holds the bytes
  of \<open>k\<close>, none of them zero, and then the terminator.
\<close>

definition key_stored :: "sss_cli_mc_ctx \<Rightarrow> sss_mc_rec \<Rightarrow> byte list \<Rightarrow> bool" where
  "key_stored ctx r k \<longleftrightarrow>
     0 \<notin> set k
     \<and> data_table ctx \<le> data_addr r + unat (name_ptr r)
     \<and> data_addr r + unat (name_ptr r) + length k + 1 \<le> max_addr_of ctx
     \<and> map (mem ctx) [data_addr r + unat (name_ptr r) ..< data_addr r + unat (name_ptr r) + length k] = k
     \<and> mem ctx (data_addr r + unat (name_ptr r) + length k) = 0"

text \<open>
  The chain of a hash \<open>h\<close> leads from the slot \<open>s\<close> to the slot \<open>t\<close> over records that
  do not belong to the key \<open>nm\<close>: each of them lies at a slot inside the extent and
  either has another primary hash, or has the hash \<open>h\<close>, stores another key, and
  has the start of its payload and the address at its key offset plus the length of
  \<open>nm\<close> inside the data table.
\<close>

inductive key_walk ::
  "sss_cli_mc_ctx \<Rightarrow> byte list \<Rightarrow> 32 word \<Rightarrow> 32 word \<Rightarrow> 32 word \<Rightarrow> bool"
  for ctx nm h
where
  stay: "key_walk ctx nm h s s"
| other_hash:
    "s < dt_size ctx \<Longrightarrow> slot_rec ctx s = (0, r) \<Longrightarrow> hash1 r \<noteq> h \<Longrightarrow>
     key_walk ctx nm h (next_same_hash r) t \<Longrightarrow> key_walk ctx nm h s t"
| other_key:
    "s < dt_size ctx \<Longrightarrow> slot_rec ctx s = (0, r) \<Longrightarrow> hash1 r = h \<Longrightarrow>
     gids_addr r \<le> max_addr_of ctx \<Longrightarrow>
     data_addr r + unat (name_ptr r) + length nm \<le> max_addr_of ctx \<Longrightarrow>
     key_stored ctx r k \<Longrightarrow> k \<noteq> nm \<Longrightarrow>
     key_walk ctx nm h (next_same_hash r) t \<Longrightarrow> key_walk ctx nm h s t"

code_pred key_walk .

text \<open>The record of the key \<open>nm\<close> with the hash \<open>h\<close> lies at the slot \<open>t\<close>.\<close>

definition key_record ::
  "sss_cli_mc_ctx \<Rightarrow> byte list \<Rightarrow> 32 word \<Rightarrow> 32 word \<Rightarrow> sss_mc_rec \<Rightarrow> bool" where
  "key_record ctx nm h t r \<longleftrightarrow>
     t < dt_size ctx \<and> slot_rec ctx t = (0, r) \<and> hash1 r = h \<and> key_stored ctx r nm"

text \<open>
  The result buffer of the data model with its hard limit: the cursor lies within the
  capacity, the capacity is the number of allocated cells, and a hard limit that is
  set bounds the capacity.
\<close>

definition buf_within :: "gr_buf \<Rightarrow> int \<Rightarrow> bool" where
  "buf_within buf limit \<longleftrightarrow> wf_buf buf \<and> (0 < limit \<longrightarrow> bsize buf \<le> limit)"

subsection \<open>A small cache\<close>

text \<open>
  A data table of 200 bytes at address 1000 that holds two records of the same hash 7,
  chained from slot 0 to slot 40: the groups 11, 12, 13 of \<^verbatim>\<open>bob\<close> and the groups
  21 to 25 of \<^verbatim>\<open>ann\<close>. In each record the array of groups starts 8 bytes after the
  data address and the name follows the array. The key \<^verbatim>\<open>dan\<close> has the hash 3, whose
  entry in the hash table is \<^verbatim>\<open>MC_INVALID_VAL\<close>; every other key has the hash 7.
\<close>

definition MC_INVALID_VAL :: "32 word" where
  "MC_INVALID_VAL = 0xFFFFFFFF"

definition ann :: "byte list" where "ann = [0x61, 0x6E, 0x6E]"
definition bob :: "byte list" where "bob = [0x62, 0x6F, 0x62]"
definition cat :: "byte list" where "cat = [0x63, 0x61, 0x74]"
definition dan :: "byte list" where "dan = [0x64, 0x61, 0x6E]"

definition ex_hashf :: "byte list \<Rightarrow> nat \<Rightarrow> 32 word" where
  "ex_hashf nm len = (if nm = dan then 3 else 7)"

definition ex_env :: env where
  "ex_env = \<lparr>now = 500, attach = 0, alloc_ok = True, fresh = 0, hashf = ex_hashf\<rparr>"

definition rec_bob :: sss_mc_rec where
  "rec_bob = \<lparr>hash1 = 7, expire = 1000, next_same_hash = 40, data_addr = 1016,
               name_ptr = 20, members = 3, gids_off = 8\<rparr>"

definition rec_ann :: sss_mc_rec where
  "rec_ann = \<lparr>hash1 = 7, expire = 1000, next_same_hash = MC_INVALID_VAL, data_addr = 1056,
               name_ptr = 28, members = 5, gids_off = 8\<rparr>"

definition ex_mem :: "addr \<Rightarrow> byte" where
  "ex_mem a =
     (if a = 1024 then 11 else if a = 1028 then 12 else if a = 1032 then 13
      else if a = 1036 then 0x62 else if a = 1037 then 0x6F else if a = 1038 then 0x62
      else if a = 1064 then 21 else if a = 1068 then 22 else if a = 1072 then 23
      else if a = 1076 then 24 else if a = 1080 then 25
      else if a = 1084 then 0x61 else if a = 1085 then 0x6E else if a = 1086 then 0x6E
      else 0)"

definition ex_slots :: "32 word \<Rightarrow> int \<times> sss_mc_rec" where
  "ex_slots s = (if s = 0 then (0, rec_bob) else if s = 40 then (0, rec_ann) else (11, rec_bob))"

definition ex_ctx :: sss_cli_mc_ctx where
  "ex_ctx = \<lparr>data_table = 1000, dt_size = 200,
              hash_table = [MC_INVALID_VAL, MC_INVALID_VAL, MC_INVALID_VAL, MC_INVALID_VAL,
                            MC_INVALID_VAL, MC_INVALID_VAL, MC_INVALID_VAL, 0],
              active_threads = 4, mem = ex_mem, slot_rec = ex_slots\<rparr>"

text \<open>
  Variants of the surroundings (a later clock, an allocator that refuses), some result
  buffers, and two caches with a shorter data table: in \<open>short_ctx\<close> the data table ends
  at address 1040, right behind the name of the record at slot 0, whose count of
  members has been raised from 3 to 5; in \<open>tight_ctx\<close> it ends at address 1088, right
  behind the name of the record of \<^verbatim>\<open>ann\<close> at slot 40.
\<close>

definition ex_env_late :: env where
  "ex_env_late = ex_env\<lparr>now := 2000\<rparr>"

definition ex_env_nomem :: env where
  "ex_env_nomem = ex_env\<lparr>alloc_ok := False\<rparr>"

definition buf4 :: gr_buf where
  "buf4 = \<lparr>start = 0, bsize = 4, groups = [0, 0, 0, 0]\<rparr>"

definition buf22 :: gr_buf where
  "buf22 = \<lparr>start = 2, bsize = 2, groups = [1, 2]\<rparr>"

definition buf10 :: gr_buf where
  "buf10 = \<lparr>start = 2, bsize = 10, groups = [1, 2, 3, 4, 5, 6, 7, 8, 9, 10]\<rparr>"

definition buf8 :: gr_buf where
  "buf8 = \<lparr>start = 0, bsize = 8, groups = [0, 0, 0, 0, 0, 0, 0, 0]\<rparr>"

definition buf24 :: gr_buf where
  "buf24 = \<lparr>start = 2, bsize = 4, groups = [1, 2, 3, 4]\<rparr>"

definition rec_long :: sss_mc_rec where
  "rec_long = rec_bob\<lparr>members := 5\<rparr>"

definition short_ctx :: sss_cli_mc_ctx where
  "short_ctx = ex_ctx\<lparr>dt_size := 40, slot_rec := (\<lambda>s. (0, rec_long))\<rparr>"

definition tight_ctx :: sss_cli_mc_ctx where
  "tight_ctx = ex_ctx\<lparr>dt_size := 88\<rparr>"

text \<open>
  A cache with a longer chain. The hash table sends the hash 7 to slot 40, and the chain
  runs over the record of \<^verbatim>\<open>cat\<close> at slot 40 (the same hash, another key), a record
  of the hash 9 at slot 80, the record of \<^verbatim>\<open>ann\<close> at slot 120 and the record of
  \<^verbatim>\<open>bob\<close> at slot 160, where it ends. No other slot, slot 0 included, can be fetched.
\<close>

definition rec_cat :: sss_mc_rec where
  "rec_cat = \<lparr>hash1 = 7, expire = 1000, next_same_hash = 80, data_addr = 1120,
               name_ptr = 20, members = 3, gids_off = 8\<rparr>"

definition rec_eve :: sss_mc_rec where
  "rec_eve = \<lparr>hash1 = 9, expire = 1000, next_same_hash = 120, data_addr = 1160,
               name_ptr = 8, members = 0, gids_off = 8\<rparr>"

definition rec_ann_mid :: sss_mc_rec where
  "rec_ann_mid = rec_ann\<lparr>next_same_hash := 160\<rparr>"

definition rec_bob_last :: sss_mc_rec where
  "rec_bob_last = rec_bob\<lparr>next_same_hash := MC_INVALID_VAL\<rparr>"

definition chain_mem :: "addr \<Rightarrow> byte" where
  "chain_mem a =
     (if a = 1140 then 0x63 else if a = 1141 then 0x61 else if a = 1142 then 0x74 else ex_mem a)"

definition chain_slots :: "32 word \<Rightarrow> int \<times> sss_mc_rec" where
  "chain_slots s =
     (if s = 40 then (0, rec_cat) else if s = 80 then (0, rec_eve)
      else if s = 120 then (0, rec_ann_mid) else if s = 160 then (0, rec_bob_last)
      else (11, rec_eve))"

definition chain_ctx :: sss_cli_mc_ctx where
  "chain_ctx = \<lparr>data_table = 1000, dt_size = 200,
              hash_table = [MC_INVALID_VAL, MC_INVALID_VAL, MC_INVALID_VAL, MC_INVALID_VAL,
                            MC_INVALID_VAL, MC_INVALID_VAL, MC_INVALID_VAL, 40],
              active_threads = 4, mem = chain_mem, slot_rec = chain_slots\<rparr>"

text \<open>
  Two damaged variants of that cache. The record at slot 120 has the hash 7 and points
  far beyond the data table, with its key offset in \<open>bad_key_ctx\<close> and with the offset of
  its array of groups in \<open>bad_gids_ctx\<close>; the record of \<^verbatim>\<open>bob\<close> at slot 160, the next of
  the chain, is intact.
\<close>

definition rec_far_key :: sss_mc_rec where
  "rec_far_key = rec_ann_mid\<lparr>name_ptr := 4000\<rparr>"

definition rec_far_gids :: sss_mc_rec where
  "rec_far_gids = rec_ann_mid\<lparr>gids_off := 4000\<rparr>"

definition bad_key_ctx :: sss_cli_mc_ctx where
  "bad_key_ctx =
     chain_ctx\<lparr>slot_rec := (\<lambda>s. if s = 120 then (0, rec_far_key) else chain_slots s)\<rparr>"

definition bad_gids_ctx :: sss_cli_mc_ctx where
  "bad_gids_ctx =
     chain_ctx\<lparr>slot_rec := (\<lambda>s. if s = 120 then (0, rec_far_gids) else chain_slots s)\<rparr>"

section \<open>The copy loop, the extraction and the chain walk\<close>

lemma load_u32_readable:
  "readable ctx r n \<Longrightarrow> k < n \<Longrightarrow> load_u32 ctx (gids_addr r + 4 * k) = Some (gid_at ctx r k)"
  by (simp add: readable_def load_u32_def gid_at_def)

lemma copy_gids_ok:
  "readable ctx r (i + n) \<Longrightarrow> 0 \<le> start buf \<Longrightarrow> nat (start buf) + n \<le> length (groups buf) \<Longrightarrow>
   copy_gids ctx r i n buf =
     Inr (buf\<lparr>groups := take (nat (start buf)) (groups buf) @ map (gid_at ctx r) [i..<i + n]
                  @ drop (nat (start buf) + n) (groups buf),
              start := start buf + int n\<rparr>)"
proof (induction n arbitrary: i buf)
  case 0
  then show ?case by simp
next
  case (Suc n)
  let ?s = "nat (start buf)"
  let ?g = "gid_at ctx r i"
  let ?b = "buf\<lparr>groups := (groups buf)[?s := ?g], start := start buf + 1\<rparr>"
  have ld: "load_u32 ctx (gids_addr r + 4 * i) = Some ?g"
    using Suc.prems(1) by (simp add: load_u32_readable)
  have lt: "?s < length (groups buf)" using Suc.prems by simp
  have s1: "nat (start ?b) = Suc ?s" using Suc.prems(2) by (simp add: nat_add_distrib)
  have ih: "copy_gids ctx r (Suc i) n ?b =
     Inr (?b\<lparr>groups := take (nat (start ?b)) (groups ?b) @ map (gid_at ctx r) [Suc i..<Suc i + n]
                  @ drop (nat (start ?b) + n) (groups ?b),
              start := start ?b + int n\<rparr>)"
    using Suc.prems by (intro Suc.IH) (simp_all add: nat_add_distrib)
  have tk: "take (Suc ?s) ((groups buf)[?s := ?g]) = take ?s (groups buf) @ [?g]"
    using lt by (simp add: take_Suc_conv_app_nth)
  have up: "[i..<Suc (i + n)] = i # [Suc i..<Suc (i + n)]"
    by (simp add: upt_conv_Cons)
  have lt': "start buf < int (length (groups buf))" using lt Suc.prems(2) by linarith
  show ?case
    using lt lt' Suc.prems(2) ld
    apply (simp only: copy_gids.simps option.case ih s1)
    apply (simp add: tk up del: upt_Suc)
    done
qed

lemma copy_gids_frame:
  "copy_gids ctx r i n buf = Inr buf' \<Longrightarrow>
     start buf' = start buf + int n \<and> bsize buf' = bsize buf
     \<and> length (groups buf') = length (groups buf)
     \<and> take (nat (start buf)) (groups buf') = take (nat (start buf)) (groups buf)
     \<and> drop (nat (start buf) + n) (groups buf') = drop (nat (start buf) + n) (groups buf)"
proof (induction n arbitrary: i buf)
  case 0
  then show ?case by simp
next
  case (Suc n)
  let ?s = "nat (start buf)"
  from Suc.prems obtain g where
    ld: "load_u32 ctx (gids_addr r + 4 * i) = Some g"
    and rng: "0 \<le> start buf" "start buf < int (length (groups buf))"
    and rec: "copy_gids ctx r (Suc i) n
                (buf\<lparr>groups := (groups buf)[?s := g], start := start buf + 1\<rparr>) = Inr buf'"
    by (auto split: option.splits if_splits)
  let ?b = "buf\<lparr>groups := (groups buf)[?s := g], start := start buf + 1\<rparr>"
  note ih = Suc.IH [OF rec]
  have s1: "nat (start ?b) = Suc ?s" using rng by (simp add: nat_add_distrib)
  have "take ?s (groups buf') = take ?s (take (Suc ?s) (groups buf'))" by simp
  also have "\<dots> = take ?s (take (Suc ?s) (groups ?b))" using ih s1 by simp
  also have "\<dots> = take ?s (groups buf)" by simp
  finally have tk: "take ?s (groups buf') = take ?s (groups buf)" .
  have dr: "drop (?s + Suc n) (groups buf') = drop (?s + Suc n) (groups buf)"
    using ih s1 by simp
  show ?case using ih tk dr by simp
qed

lemma mc_loop_end:
  "\<not> MC_SLOT_WITHIN_BOUNDS slot (dt_size ctx) \<Longrightarrow>
   mc_loop ctx nm name_len ma hash slot = Some (Inr (Loop_end slot))"
  by (subst mc_loop.simps) simp

lemma mc_loop_match:
  "chain_match ctx nm name_len hash slot r \<Longrightarrow>
   mc_loop ctx nm name_len (max_addr_of ctx) hash slot = Some (Inr (Loop_break slot r))"
  by (subst mc_loop.simps) (simp add: chain_match_def)

lemma mc_loop_reject:
  "chain_reject ctx name_len hash slot \<Longrightarrow>
   mc_loop ctx nm name_len (max_addr_of ctx) hash slot = Some (Inr (Goto_done ENOENT))"
  by (subst mc_loop.simps) (simp add: chain_reject_def ENOENT_def)

lemma mc_loop_skip:
  "chain_skip ctx nm name_len hash slot \<Longrightarrow>
   mc_loop ctx nm name_len (max_addr_of ctx) hash slot =
   mc_loop ctx nm name_len (max_addr_of ctx) hash
     (sss_nss_mc_next_slot_with_hash (snd (sss_nss_mc_get_record ctx slot)) hash)"
  by (subst mc_loop.simps) (auto simp add: chain_skip_def Let_def)

lemma mc_loop_reaches:
  "chain_reaches ctx nm name_len hash s t \<Longrightarrow>
   mc_loop ctx nm name_len (max_addr_of ctx) hash s = mc_loop ctx nm name_len (max_addr_of ctx) hash t"
  by (induction rule: chain_reaches.induct) (simp_all add: mc_loop_skip)

lemma load_u8_threads [simp]: "load_u8 (ctx\<lparr>active_threads := a\<rparr>) = load_u8 ctx"
  by (rule ext) (simp add: load_u8_def max_addr_of_def)

lemma max_addr_threads [simp]: "max_addr_of (ctx\<lparr>active_threads := a\<rparr>) = max_addr_of ctx"
  by (simp add: max_addr_of_def)

lemma load_u32_threads [simp]: "load_u32 (ctx\<lparr>active_threads := a\<rparr>) = load_u32 ctx"
  by (rule ext) (simp add: load_u32_def peek_u32_def)

lemma c_strcmp_threads [simp]:
  "c_strcmp (ctx\<lparr>active_threads := a\<rparr>) nm p = c_strcmp ctx nm p"
  by (induction nm arbitrary: p) (simp_all split: option.splits)

lemma copy_gids_threads [simp]:
  "copy_gids (ctx\<lparr>active_threads := a\<rparr>) r i n buf = copy_gids ctx r i n buf"
  by (induction n arbitrary: i buf) (auto split: option.splits)

lemma parse_result_threads [simp]:
  "sss_nss_mc_parse_result e (ctx\<lparr>active_threads := a\<rparr>) r buf limit =
   sss_nss_mc_parse_result e ctx r buf limit"
  by (simp add: sss_nss_mc_parse_result_def Let_def cong: option.case_cong if_cong)

lemma get_record_threads [simp]:
  "sss_nss_mc_get_record (ctx\<lparr>active_threads := a\<rparr>) = sss_nss_mc_get_record ctx"
  by (rule ext) (simp add: sss_nss_mc_get_record_def)

lemma hash_slot_threads [simp]: "hash_slot (ctx\<lparr>active_threads := a\<rparr>) = hash_slot ctx"
  by (rule ext) (simp add: hash_slot_def)

lemma chain_skip_threads [simp]:
  "chain_skip (ctx\<lparr>active_threads := a\<rparr>) nm name_len hash s = chain_skip ctx nm name_len hash s"
  by (simp add: chain_skip_def)

lemma chain_match_threads [simp]:
  "chain_match (ctx\<lparr>active_threads := a\<rparr>) nm name_len hash s r = chain_match ctx nm name_len hash s r"
  by (simp add: chain_match_def)

lemma chain_reject_threads [simp]:
  "chain_reject (ctx\<lparr>active_threads := a\<rparr>) name_len hash s = chain_reject ctx name_len hash s"
  by (simp add: chain_reject_def)

lemma chain_reaches_threads:
  "chain_reaches ctx nm name_len hash s t \<Longrightarrow>
   chain_reaches (ctx\<lparr>active_threads := a\<rparr>) nm name_len hash s t"
proof (induction rule: chain_reaches.induct)
  case (here s)
  show ?case by (rule chain_reaches.here)
next
  case (step s t)
  show ?case
    by (rule chain_reaches.step) (use step in simp_all)
qed

lemma lookup_loop:
  assumes "lookup_starts e ctx nm name_len slot0"
  shows "sss_nss_mc_initgroups_dyn e ctx nm name_len buf limit =
     (let c = ctx\<lparr>active_threads := active_threads ctx + 1\<rparr> in
      case mc_loop c nm name_len (max_addr_of ctx) (key_hash e nm name_len) slot0 of
                   None \<Rightarrow> None
                 | Some (Inl f) \<Rightarrow> Some (Inl f)
                 | Some (Inr (Goto_done ret)) \<Rightarrow> done_exit c ret buf
                 | Some (Inr (Loop_end slot)) \<Rightarrow>
                     if \<not> MC_SLOT_WITHIN_BOUNDS slot (dt_size c) then done_exit c ENOENT buf
                     else Some (Inl Null_record)
                 | Some (Inr (Loop_break slot r)) \<Rightarrow>
                     if \<not> MC_SLOT_WITHIN_BOUNDS slot (dt_size c) then done_exit c ENOENT buf
                     else
                       (case sss_nss_mc_parse_result e c r buf limit of
                          Inl f \<Rightarrow> Some (Inl f)
                        | Inr (ret, buf') \<Rightarrow> done_exit c ret buf'))"
proof -
  from assms have a: "attach e = 0"
    and s: "hash_slot ctx (sss_nss_mc_hash e nm (name_len + 1)) = Some slot0"
    by (simp_all add: lookup_starts_def key_hash_def)
  show ?thesis
    unfolding sss_nss_mc_initgroups_dyn_def sss_nss_mc_get_ctx_def key_hash_def Let_def
    by (simp add: a s max_addr_of_def del: One_nat_def add_Suc_right
        cong: option.case_cong sum.case_cong loop_exit.case_cong if_cong)
qed

lemma mc_loop_reaches_acq:
  "chain_reaches ctx nm name_len h s t \<Longrightarrow>
   mc_loop (ctx\<lparr>active_threads := a\<rparr>) nm name_len (max_addr_of ctx) h s =
   mc_loop (ctx\<lparr>active_threads := a\<rparr>) nm name_len (max_addr_of ctx) h t"
  using mc_loop_reaches [OF chain_reaches_threads [of ctx nm name_len h s t a]] by simp

lemma mc_loop_match_acq:
  "chain_match ctx nm name_len h t r \<Longrightarrow>
   mc_loop (ctx\<lparr>active_threads := a\<rparr>) nm name_len (max_addr_of ctx) h t =
     Some (Inr (Loop_break t r))"
  using mc_loop_match [of "ctx\<lparr>active_threads := a\<rparr>" nm name_len h t r] by simp

lemma mc_loop_reject_acq:
  "chain_reject ctx name_len h t \<Longrightarrow>
   mc_loop (ctx\<lparr>active_threads := a\<rparr>) nm name_len (max_addr_of ctx) h t =
     Some (Inr (Goto_done ENOENT))"
  using mc_loop_reject [of "ctx\<lparr>active_threads := a\<rparr>" name_len h t nm] by simp

lemma lookup_found:
  assumes st: "lookup_starts e ctx nm name_len slot0"
    and re: "chain_reaches ctx nm name_len (key_hash e nm name_len) slot0 t"
    and ma: "chain_match ctx nm name_len (key_hash e nm name_len) t r"
  shows "sss_nss_mc_initgroups_dyn e ctx nm name_len buf limit =
     (case sss_nss_mc_parse_result e ctx r buf limit of
        Inl f \<Rightarrow> Some (Inl f)
      | Inr (ret, buf') \<Rightarrow> Some (Inr (ret, ctx, buf')))"
proof -
  have wb: "MC_SLOT_WITHIN_BOUNDS t (dt_size ctx)" using ma by (simp add: chain_match_def)
  show ?thesis
    by (simp add: lookup_loop [OF st] Let_def mc_loop_reaches_acq [OF re] mc_loop_match_acq [OF ma]
        wb done_exit_def split: sum.splits)
qed

lemma lookup_exhausted:
  assumes st: "lookup_starts e ctx nm name_len slot0"
    and re: "chain_reaches ctx nm name_len (key_hash e nm name_len) slot0 t"
    and ob: "\<not> MC_SLOT_WITHIN_BOUNDS t (dt_size ctx)"
  shows "sss_nss_mc_initgroups_dyn e ctx nm name_len buf limit = Some (Inr (ENOENT, ctx, buf))"
  by (simp add: lookup_loop [OF st] Let_def mc_loop_reaches_acq [OF re] mc_loop_end ob done_exit_def)

lemma lookup_rejected:
  assumes st: "lookup_starts e ctx nm name_len slot0"
    and re: "chain_reaches ctx nm name_len (key_hash e nm name_len) slot0 t"
    and rj: "chain_reject ctx name_len (key_hash e nm name_len) t"
  shows "sss_nss_mc_initgroups_dyn e ctx nm name_len buf limit = Some (Inr (ENOENT, ctx, buf))"
  by (simp add: lookup_loop [OF st] Let_def mc_loop_reaches_acq [OF re] mc_loop_reject_acq [OF rj]
      done_exit_def)

lemma lookup_returns:
  assumes "sss_nss_mc_initgroups_dyn e ctx nm name_len buf limit = Some (Inr (ret, ctx', buf'))"
  shows "(attach e \<noteq> 0 \<and> ret = attach e \<and> ctx' = ctx \<and> buf' = buf)
       \<or> (attach e = 0 \<and> ctx' = ctx
           \<and> (buf' = buf \<or> (\<exists>r. sss_nss_mc_parse_result e ctx r buf limit = Inr (ret, buf'))))"
  using assms
  by (auto simp add: sss_nss_mc_initgroups_dyn_def sss_nss_mc_get_ctx_def Let_def done_exit_def
      split: if_splits option.splits sum.splits loop_exit.splits prod.splits)

lemma length_grown [simp]: "length (grown e xs n) = nat n"
  by (simp add: grown_def)

lemma take_grown: "k \<le> nat n \<Longrightarrow> k \<le> length xs \<Longrightarrow> take k (grown e xs n) = take k xs"
  by (simp add: grown_def min_def)

lemma nth_grown: "j < nat n \<Longrightarrow> j < length xs \<Longrightarrow> grown e xs n ! j = xs ! j"
  by (simp add: grown_def nth_append)

lemma realloc_gids_ok: "alloc_ok e \<Longrightarrow> 0 < n \<Longrightarrow> realloc_gids e xs n = Some (grown e xs n)"
  by (simp add: realloc_gids_def grown_def)

lemma realloc_gids_Some: "realloc_gids e xs n = Some ys \<Longrightarrow> ys = grown e xs n \<and> 0 < n"
  by (auto simp add: realloc_gids_def grown_def split: if_splits)

lemma parse_result_expired:
  "expire r < now e \<Longrightarrow> sss_nss_mc_parse_result e ctx r buf limit = Inr (EINVAL, buf)"
  by (simp add: sss_nss_mc_parse_result_def)

lemma parse_result_nomem:
  "\<not> expire r < now e \<Longrightarrow> bsize buf - start buf < uint (members r) \<Longrightarrow> \<not> alloc_ok e \<Longrightarrow>
   sss_nss_mc_parse_result e ctx r buf limit = Inr (ENOMEM, buf)"
  by (simp add: sss_nss_mc_parse_result_def Let_def realloc_gids_def)

lemma parse_result_fits:
  assumes live: "\<not> expire r < now e"
    and fits: "uint (members r) \<le> bsize buf - start buf"
    and wf: "wf_buf buf"
    and rd: "readable ctx r (unat (members r))"
  shows "sss_nss_mc_parse_result e ctx r buf limit =
     Inr (0, buf\<lparr>groups := take (nat (start buf)) (groups buf) @ payload_at ctx r (unat (members r))
                    @ drop (nat (start buf) + unat (members r)) (groups buf),
                start := start buf + uint (members r)\<rparr>)"
proof -
  have s0: "0 \<le> start buf" using wf by (simp add: wf_buf_def)
  have "int (nat (start buf) + unat (members r)) = start buf + uint (members r)"
    using s0 by simp
  also have "\<dots> \<le> int (length (groups buf))"
    using wf fits by (simp add: wf_buf_def)
  finally have le: "nat (start buf) + unat (members r) \<le> length (groups buf)"
    by linarith
  have cp: "copy_gids ctx r 0 (unat (members r)) buf =
     Inr (buf\<lparr>groups := take (nat (start buf)) (groups buf) @ map (gid_at ctx r) [0..<0 + unat (members r)]
                  @ drop (nat (start buf) + unat (members r)) (groups buf),
              start := start buf + int (unat (members r))\<rparr>)"
    by (rule copy_gids_ok) (use rd s0 le in simp_all)
  show ?thesis
    using live fits
    by (simp add: sss_nss_mc_parse_result_def Let_def cp payload_at_def not_less)
qed

lemma parse_result_clamped:
  assumes live: "\<not> expire r < now e"
    and grow: "bsize buf - start buf < uint (members r)"
    and lim: "0 < limit" "limit < bsize buf + uint (members r)"
    and ok: "alloc_ok e"
    and s0: "0 \<le> start buf"
    and rd: "readable ctx r (nat (limit - start buf))"
  shows "sss_nss_mc_parse_result e ctx r buf limit =
     Inr (0, buf\<lparr>groups := take (nat (start buf)) (grown e (groups buf) limit)
                    @ payload_at ctx r (nat (limit - start buf))
                    @ drop (nat (start buf) + nat (limit - start buf)) (grown e (groups buf) limit),
                bsize := limit,
                start := start buf + int (nat (limit - start buf))\<rparr>)"
proof -
  let ?m = "nat (limit - start buf)"
  let ?G = "grown e (groups buf) limit"
  let ?b = "buf\<lparr>groups := ?G, bsize := limit\<rparr>"
  have cp: "copy_gids ctx r 0 ?m ?b =
     Inr (?b\<lparr>groups := take (nat (start ?b)) (groups ?b) @ map (gid_at ctx r) [0..<0 + ?m]
                  @ drop (nat (start ?b) + ?m) (groups ?b),
              start := start ?b + int ?m\<rparr>)"
  proof (cases "?m = 0")
    case True
    then show ?thesis by simp
  next
    case False
    then have "nat (start buf) + ?m \<le> nat limit" using s0 by linarith
    then show ?thesis
      by (intro copy_gids_ok) (use rd s0 in simp_all)
  qed
  show ?thesis
    using live grow lim ok
    by (simp add: sss_nss_mc_parse_result_def Let_def realloc_gids_ok cp payload_at_def)
qed

lemma nth_of_drop_eq:
  assumes "drop k xs = drop k ys" "k \<le> j" "j < length xs" "length xs = length ys"
  shows "xs ! j = ys ! j"
proof -
  have kx: "k \<le> length xs" and ky: "k \<le> length ys" using assms by simp_all
  have "xs ! j = drop k xs ! (j - k)" using assms(2) by (simp add: nth_drop [OF kx])
  also have "\<dots> = drop k ys ! (j - k)" by (simp only: assms(1))
  also have "\<dots> = ys ! j" using assms(2) by (simp add: nth_drop [OF ky])
  finally show ?thesis .
qed

lemma parse_result_grows:
  assumes live: "\<not> expire r < now e"
    and grow: "bsize buf - start buf < uint (members r)"
    and nocl: "limit \<le> 0 \<or> bsize buf + uint (members r) \<le> limit"
    and ok: "alloc_ok e"
    and wf: "wf_buf buf"
    and rd: "readable ctx r (unat (members r))"
  shows "sss_nss_mc_parse_result e ctx r buf limit =
     Inr (0, buf\<lparr>groups := take (nat (start buf)) (groups buf) @ payload_at ctx r (unat (members r))
                    @ replicate (length (groups buf) - nat (start buf)) (fresh e),
                bsize := bsize buf + uint (members r),
                start := start buf + uint (members r)\<rparr>)"
proof -
  let ?n = "unat (members r)"
  let ?s = "nat (start buf)"
  let ?N = "bsize buf + uint (members r)"
  let ?G = "grown e (groups buf) ?N"
  let ?b = "buf\<lparr>groups := ?G, bsize := ?N\<rparr>"
  have s0: "0 \<le> start buf" and bs: "bsize buf = int (length (groups buf))"
    using wf by (simp_all add: wf_buf_def)
  have sl: "?s \<le> length (groups buf)"
    using wf unfolding wf_buf_def by linarith
  have nN: "nat ?N = length (groups buf) + ?n" by (simp add: bs nat_add_distrib)
  have G: "?G = groups buf @ replicate ?n (fresh e)" by (simp add: grown_def nN)
  have u0: "0 \<le> uint (members r)" by simp
  have sb: "start buf \<le> bsize buf" using wf by (simp add: wf_buf_def)
  have pos: "0 < ?N" using grow s0 sb by linarith
  have cp: "copy_gids ctx r 0 ?n ?b =
     Inr (?b\<lparr>groups := take (nat (start ?b)) (groups ?b) @ map (gid_at ctx r) [0..<0 + ?n]
                  @ drop (nat (start ?b) + ?n) (groups ?b),
              start := start ?b + int ?n\<rparr>)"
    by (intro copy_gids_ok) (use rd s0 sl nN in simp_all)
  have "int (length (groups buf)) < int (?s + ?n)" using grow s0 bs by simp
  then have gt: "length (groups buf) < ?s + ?n" by linarith
  have "?n - (?s + ?n - length (groups buf)) = length (groups buf) - ?s"
    using gt sl by linarith
  then have dr: "drop (?s + ?n) ?G = replicate (length (groups buf) - ?s) (fresh e)"
    using gt by (simp add: G)
  have tk: "take ?s ?G = take ?s (groups buf)" using sl by (simp add: G)
  have ncl: "\<not> (0 < limit \<and> limit < ?N)" using nocl by linarith
  show ?thesis
    by (simp add: sss_nss_mc_parse_result_def Let_def live grow ncl realloc_gids_ok [OF ok pos] cp
        payload_at_def dr tk)
qed

lemma parse_result_frame:
  assumes ret: "sss_nss_mc_parse_result e ctx r buf limit = Inr (ret, buf')"
    and wf: "wf_buf buf"
    and lim: "0 < limit \<longrightarrow> start buf \<le> limit"
  shows "take (nat (start buf)) (groups buf') = take (nat (start buf)) (groups buf)
       \<and> start buf \<le> start buf'
       \<and> (\<forall>j. nat (start buf') \<le> j \<and> j < length (groups buf) \<and> j < length (groups buf')
             \<longrightarrow> groups buf' ! j = groups buf ! j)"
proof -
  let ?s = "nat (start buf)"
  have s0: "0 \<le> start buf" and bs: "bsize buf = int (length (groups buf))"
    using wf by (simp_all add: wf_buf_def)
  have sl: "?s \<le> length (groups buf)"
    using wf unfolding wf_buf_def by linarith
  consider (same) "buf' = buf"
    | (copy) n where "copy_gids ctx r 0 n buf = Inr buf'"
    | (grow) n N where "copy_gids ctx r 0 n (buf\<lparr>groups := grown e (groups buf) N, bsize := N\<rparr>) = Inr buf'"
        and "start buf \<le> N"
  proof -
    show thesis
    proof (cases "expire r < now e")
      case True
      with ret have "buf' = buf" by (simp add: sss_nss_mc_parse_result_def)
      then show thesis by (rule same)
    next
      case live: False
      show thesis
      proof (cases "bsize buf - start buf < uint (members r)")
        case False
        with live ret have "copy_gids ctx r 0 (nat (uint (members r))) buf = Inr buf'"
          by (auto simp add: sss_nss_mc_parse_result_def Let_def map_sum_def split: sum.splits)
        then show thesis by (rule copy)
      next
        case g: True
        let ?Z = "bsize buf + uint (members r)"
        let ?cl = "0 < limit \<and> limit < ?Z"
        let ?N = "if ?cl then limit else ?Z"
        let ?m = "if ?cl then ?N - start buf else uint (members r)"
        have u0: "0 \<le> uint (members r)" by simp
        have "start buf \<le> ?Z" using wf u0 unfolding wf_buf_def by linarith
        then have N: "start buf \<le> ?N" using lim by simp
        show thesis
        proof (cases "realloc_gids e (groups buf) ?N")
          case None
          with live g ret have "buf' = buf"
            by (simp add: sss_nss_mc_parse_result_def Let_def)
          then show thesis by (rule same)
        next
          case (Some ys)
          then have ys: "ys = grown e (groups buf) ?N" by (simp add: realloc_gids_Some)
          from live g ret Some
          have "copy_gids ctx r 0 (nat ?m) (buf\<lparr>groups := ys, bsize := ?N\<rparr>) = Inr buf'"
            by (auto simp add: sss_nss_mc_parse_result_def Let_def map_sum_def split: sum.splits)
          then show thesis using N unfolding ys by (rule grow)
        qed
      qed
    qed
  qed
  then show ?thesis
  proof cases
    case same
    then show ?thesis by simp
  next
    case (copy n)
    note fr = copy_gids_frame [OF copy]
    have nth: "groups buf' ! j = groups buf ! j"
      if "nat (start buf') \<le> j" "j < length (groups buf)" for j
    proof -
      have j: "?s + n \<le> j" using that fr s0 by (simp add: nat_add_distrib)
      show ?thesis
        by (rule nth_of_drop_eq [of "?s + n"]) (use j that fr in simp_all)
    qed
    show ?thesis using fr nth by simp
  next
    case (grow n N)
    let ?b = "buf\<lparr>groups := grown e (groups buf) N, bsize := N\<rparr>"
    note fr = copy_gids_frame [OF grow(1)]
    have sN: "?s \<le> nat N" using grow(2) by simp
    have tk: "take ?s (groups buf') = take ?s (groups buf)"
      using fr sN sl by (simp add: take_grown)
    have nth: "groups buf' ! j = groups buf ! j"
      if "nat (start buf') \<le> j" "j < length (groups buf)" "j < length (groups buf')" for j
    proof -
      have j: "?s + n \<le> j" using that fr s0 by (simp add: nat_add_distrib)
      have jN: "j < nat N" using that fr by simp
      have "groups buf' ! j = grown e (groups buf) N ! j"
        by (rule nth_of_drop_eq [of "?s + n"]) (use j that fr in simp_all)
      also have "\<dots> = groups buf ! j" using jN that by (simp add: nth_grown)
      finally show ?thesis .
    qed
    show ?thesis using fr tk nth by simp
  qed
qed

lemma length_payload_at [simp]: "length (payload_at ctx r n) = n"
  by (simp add: payload_at_def)

section \<open>Facts about the small cache\<close>

lemmas ex_defs = ex_env_def ex_ctx_def ex_slots_def rec_bob_def rec_ann_def ex_hashf_def
  ann_def bob_def cat_def dan_def MC_INVALID_VAL_def

lemma ex_max_addr: "max_addr_of ex_ctx = 1200"
  by (simp add: max_addr_of_def ex_ctx_def)

lemma ex_hash: "key_hash ex_env ann 3 = 7" "key_hash ex_env bob 3 = 7" "key_hash ex_env cat 3 = 7"
  "key_hash ex_env dan 3 = 3"
  by (simp_all add: key_hash_def sss_nss_mc_hash_def ex_defs)

lemma ex_starts:
  "lookup_starts ex_env ex_ctx ann 3 0" "lookup_starts ex_env ex_ctx bob 3 0"
  "lookup_starts ex_env ex_ctx cat 3 0" "lookup_starts ex_env ex_ctx dan 3 MC_INVALID_VAL"
  by (simp_all add: lookup_starts_def ex_hash hash_slot_def) (simp_all add: ex_defs)

lemma ex_strcmp:
  "c_strcmp ex_ctx ann 1036 = Inr False" "c_strcmp ex_ctx bob 1036 = Inr True"
  "c_strcmp ex_ctx cat 1036 = Inr False"
  "c_strcmp ex_ctx ann 1084 = Inr True" "c_strcmp ex_ctx cat 1084 = Inr False"
  by (simp_all add: ann_def bob_def cat_def load_u8_def ex_max_addr)
     (simp_all add: ex_ctx_def ex_mem_def)

lemma ex_match_bob: "chain_match ex_ctx bob 3 7 0 rec_bob"
  by (simp add: chain_match_def MC_SLOT_WITHIN_BOUNDS_def sss_nss_mc_get_record_def
      integrity_violation_def gids_addr_def ex_max_addr)
     (simp add: ex_ctx_def ex_slots_def rec_bob_def ex_strcmp [unfolded ex_ctx_def])

lemma ex_skip_bob:
  "chain_skip ex_ctx ann 3 7 0" "chain_skip ex_ctx cat 3 7 0"
  by (simp_all add: chain_skip_def MC_SLOT_WITHIN_BOUNDS_def sss_nss_mc_get_record_def
      integrity_violation_def gids_addr_def ex_max_addr Let_def)
     (simp_all add: ex_ctx_def ex_slots_def rec_bob_def ex_strcmp [unfolded ex_ctx_def])

lemma ex_skip_ann: "chain_skip ex_ctx cat 3 7 40"
  by (simp add: chain_skip_def MC_SLOT_WITHIN_BOUNDS_def sss_nss_mc_get_record_def
      integrity_violation_def gids_addr_def ex_max_addr Let_def)
     (simp add: ex_ctx_def ex_slots_def rec_ann_def ex_strcmp [unfolded ex_ctx_def])

lemma ex_next:
  "sss_nss_mc_next_slot_with_hash (snd (sss_nss_mc_get_record ex_ctx 0)) h = 40"
  "sss_nss_mc_next_slot_with_hash (snd (sss_nss_mc_get_record ex_ctx 40)) h = MC_INVALID_VAL"
  by (simp_all add: sss_nss_mc_next_slot_with_hash_def sss_nss_mc_get_record_def ex_ctx_def
      ex_slots_def rec_bob_def rec_ann_def)

lemma ex_match_ann: "chain_match ex_ctx ann 3 7 40 rec_ann"
  by (simp add: chain_match_def MC_SLOT_WITHIN_BOUNDS_def sss_nss_mc_get_record_def
      integrity_violation_def gids_addr_def ex_max_addr)
     (simp add: ex_ctx_def ex_slots_def rec_ann_def ex_strcmp [unfolded ex_ctx_def])

lemma ex_reaches_ann: "chain_reaches ex_ctx ann 3 7 0 40"
proof (rule chain_reaches.step)
  show "chain_skip ex_ctx ann 3 7 0" by (rule ex_skip_bob)
  show "chain_reaches ex_ctx ann 3 7
          (sss_nss_mc_next_slot_with_hash (snd (sss_nss_mc_get_record ex_ctx 0)) 7) 40"
    unfolding ex_next by (rule chain_reaches.here)
qed

lemma ex_reaches_cat: "chain_reaches ex_ctx cat 3 7 0 MC_INVALID_VAL"
proof (rule chain_reaches.step)
  show "chain_skip ex_ctx cat 3 7 0" by (rule ex_skip_bob)
  show "chain_reaches ex_ctx cat 3 7
          (sss_nss_mc_next_slot_with_hash (snd (sss_nss_mc_get_record ex_ctx 0)) 7) MC_INVALID_VAL"
    unfolding ex_next
  proof (rule chain_reaches.step)
    show "chain_skip ex_ctx cat 3 7 40" by (rule ex_skip_ann)
    show "chain_reaches ex_ctx cat 3 7
          (sss_nss_mc_next_slot_with_hash (snd (sss_nss_mc_get_record ex_ctx 40)) 7) MC_INVALID_VAL"
      unfolding ex_next by (rule chain_reaches.here)
  qed
qed

lemma ex_invalid: "\<not> MC_SLOT_WITHIN_BOUNDS MC_INVALID_VAL (dt_size ex_ctx)"
  by (simp add: MC_SLOT_WITHIN_BOUNDS_def MC_INVALID_VAL_def ex_ctx_def)

lemma ex_gid_bob: "gid_at ex_ctx rec_bob 0 = 11" "gid_at ex_ctx rec_bob 1 = 12" "gid_at ex_ctx rec_bob 2 = 13"
  by (simp_all add: gid_at_def peek_u32_def gids_addr_def rec_bob_def ex_ctx_def ex_mem_def)

lemma ex_gid_ann: "gid_at ex_ctx rec_ann 0 = 21" "gid_at ex_ctx rec_ann 1 = 22" "gid_at ex_ctx rec_ann 2 = 23"
  "gid_at ex_ctx rec_ann 3 = 24" "gid_at ex_ctx rec_ann 4 = 25"
  by (simp_all add: gid_at_def peek_u32_def gids_addr_def rec_ann_def ex_ctx_def ex_mem_def)

lemma ex_payload_bob: "payload_at ex_ctx rec_bob 3 = [11, 12, 13]"
  by (simp add: payload_at_def upt_conv_Cons gid_at_def peek_u32_def gids_addr_def rec_bob_def
      ex_ctx_def ex_mem_def del: upt_Suc)

lemma ex_payload_ann: "payload_at ex_ctx rec_ann 5 = [21, 22, 23, 24, 25]"
  "payload_at ex_ctx rec_ann 3 = [21, 22, 23]"
  by (simp_all add: payload_at_def upt_conv_Cons gid_at_def peek_u32_def gids_addr_def rec_ann_def
      ex_ctx_def ex_mem_def del: upt_Suc)

lemma ex_readable: "readable ex_ctx rec_bob 3" "readable ex_ctx rec_ann 5" "readable ex_ctx rec_ann 3"
  by (simp_all add: readable_def ex_max_addr gids_addr_def) (simp_all add: ex_ctx_def rec_bob_def rec_ann_def)

lemma ex_found_bob:
  "sss_nss_mc_initgroups_dyn e ex_ctx bob 3 buf limit =
     (case sss_nss_mc_parse_result e ex_ctx rec_bob buf limit of
        Inl f \<Rightarrow> Some (Inl f) | Inr (ret, buf') \<Rightarrow> Some (Inr (ret, ex_ctx, buf')))"
  if "key_hash e = key_hash ex_env" "attach e = 0" for e
proof -
  have st: "lookup_starts e ex_ctx bob 3 0"
    using ex_starts(2) that by (simp add: lookup_starts_def)
  show ?thesis
    by (rule lookup_found [OF st, of 0])
       (simp_all add: that ex_hash chain_reaches.here ex_match_bob)
qed

lemma ex_env_variants:
  "key_hash ex_env_late nm n = key_hash ex_env nm n"
  "key_hash ex_env_nomem nm n = key_hash ex_env nm n"
  "lookup_starts ex_env_late ctx nm n s = lookup_starts ex_env ctx nm n s"
  "lookup_starts ex_env_nomem ctx nm n s = lookup_starts ex_env ctx nm n s"
  by (simp_all add: ex_env_late_def ex_env_nomem_def key_hash_def lookup_starts_def
      sss_nss_mc_hash_def)

lemma ex_reaches_bob: "chain_reaches ex_ctx bob 3 7 0 0"
  by (rule chain_reaches.here)

lemma ex_live: "\<not> expire rec_ann < now ex_env" "\<not> expire rec_bob < now ex_env"
  "\<not> expire rec_ann < now ex_env_nomem" "expire rec_bob < now ex_env_late"
  by (simp_all add: rec_ann_def rec_bob_def ex_env_def ex_env_nomem_def ex_env_late_def)

lemma ex_found_ann:
  "sss_nss_mc_initgroups_dyn e ex_ctx ann 3 buf limit =
     (case sss_nss_mc_parse_result e ex_ctx rec_ann buf limit of
        Inl f \<Rightarrow> Some (Inl f) | Inr (ret, buf') \<Rightarrow> Some (Inr (ret, ex_ctx, buf')))"
  if "key_hash e = key_hash ex_env" "attach e = 0" for e
proof -
  have st: "lookup_starts e ex_ctx ann 3 0"
    using ex_starts(1) that by (simp add: lookup_starts_def)
  show ?thesis
    by (rule lookup_found [OF st, of 40]) (simp_all add: that ex_hash ex_reaches_ann ex_match_ann)
qed

lemma ex_key_hash:
  "key_hash ex_env_late = key_hash ex_env" "key_hash ex_env_nomem = key_hash ex_env"
  "attach ex_env = 0" "attach ex_env_late = 0" "attach ex_env_nomem = 0"
  by (simp_all add: fun_eq_iff ex_env_variants) (simp_all add: ex_env_def ex_env_late_def ex_env_nomem_def)

lemma ex_run_success:
  "sss_nss_mc_initgroups_dyn ex_env ex_ctx bob 3 buf4 0 =
     Some (Inr (EOK, ex_ctx, \<lparr>start = 3, bsize = 4, groups = [11, 12, 13, 0]\<rparr>))"
proof -
  have "sss_nss_mc_parse_result ex_env ex_ctx rec_bob buf4 0 =
          Inr (0, \<lparr>start = 3, bsize = 4, groups = [11, 12, 13, 0]\<rparr>)"
    using parse_result_fits [of rec_bob ex_env buf4 ex_ctx 0]
    by (simp add: ex_live ex_readable ex_payload_bob wf_buf_def buf4_def)
       (simp add: rec_bob_def ex_readable [unfolded rec_bob_def] ex_payload_bob [unfolded rec_bob_def])
  then show ?thesis by (simp add: ex_found_bob ex_key_hash EOK_def)
qed

lemma ex_run_missing:
  "sss_nss_mc_initgroups_dyn ex_env ex_ctx cat 3 buf4 0 = Some (Inr (ENOENT, ex_ctx, buf4))"
  by (rule lookup_exhausted [OF ex_starts(3), of MC_INVALID_VAL])
     (simp_all add: ex_hash ex_reaches_cat ex_invalid)

lemma ex_run_expired:
  "sss_nss_mc_initgroups_dyn ex_env_late ex_ctx bob 3 buf4 0 = Some (Inr (EINVAL, ex_ctx, buf4))"
  by (simp add: ex_found_bob ex_key_hash parse_result_expired ex_live)

lemma ex_run_nomem:
  "sss_nss_mc_initgroups_dyn ex_env_nomem ex_ctx ann 3 buf22 0 = Some (Inr (ENOMEM, ex_ctx, buf22))"
proof -
  have "sss_nss_mc_parse_result ex_env_nomem ex_ctx rec_ann buf22 0 = Inr (ENOMEM, buf22)"
    by (rule parse_result_nomem) (simp_all add: ex_live buf22_def ex_env_nomem_def, simp_all add: rec_ann_def ex_env_def)
  then show ?thesis by (simp add: ex_found_ann ex_key_hash)
qed

lemma ex_run_capped:
  "sss_nss_mc_initgroups_dyn ex_env ex_ctx ann 3 buf22 5 =
     Some (Inr (EOK, ex_ctx, \<lparr>start = 5, bsize = 5, groups = [1, 2, 21, 22, 23]\<rparr>))"
proof -
  have m5: "members rec_ann = 5" by (simp add: rec_ann_def)
  have "sss_nss_mc_parse_result ex_env ex_ctx rec_ann buf22 5 =
          Inr (0, \<lparr>start = 5, bsize = 5, groups = [1, 2, 21, 22, 23]\<rparr>)"
    using parse_result_clamped [of rec_ann ex_env buf22 5 ex_ctx]
    by (simp add: ex_live m5 grown_def)
       (simp add: buf22_def ex_env_def ex_readable ex_payload_ann)
  then show ?thesis by (simp add: ex_found_ann ex_key_hash EOK_def)
qed

lemma short_facts:
  "max_addr_of short_ctx = 1040"
  "lookup_starts ex_env short_ctx bob 3 0"
  "chain_match short_ctx bob 3 7 0 rec_long"
proof -
  show ma: "max_addr_of short_ctx = 1040"
    by (simp add: max_addr_of_def short_ctx_def ex_ctx_def)
  show "lookup_starts ex_env short_ctx bob 3 0"
    by (simp add: lookup_starts_def ex_hash hash_slot_def)
       (simp add: short_ctx_def ex_ctx_def ex_env_def)
  have cmp: "c_strcmp short_ctx bob 1036 = Inr True"
    by (simp add: bob_def load_u8_def ma) (simp add: short_ctx_def ex_ctx_def ex_mem_def)
  have r0: "sss_nss_mc_get_record short_ctx 0 = (0, rec_long)"
    by (simp add: sss_nss_mc_get_record_def short_ctx_def)
  have dt: "dt_size short_ctx = 40" by (simp add: short_ctx_def)
  show "chain_match short_ctx bob 3 7 0 rec_long"
    by (simp add: chain_match_def MC_SLOT_WITHIN_BOUNDS_def r0 dt integrity_violation_def
        gids_addr_def ma)
       (simp add: rec_long_def rec_bob_def cmp)
qed

section \<open>Presence on the shared memory and the chain walk of the lookup\<close>

lemma c_strcmp_stored_at:
  assumes "0 \<notin> set k" "0 \<notin> set nm" "data_table ctx \<le> a" "a + length k + 1 \<le> max_addr_of ctx"
    "map (mem ctx) [a..<a + length k] = k" "mem ctx (a + length k) = 0"
  shows "c_strcmp ctx nm a = Inr (nm = k)"
  using assms
proof (induction nm arbitrary: k a)
  case Nil
  have ld: "load_u8 ctx a = Some (mem ctx a)" using Nil.prems by (simp add: load_u8_def)
  show ?case
  proof (cases k)
    case Nil
    with Nil.prems ld show ?thesis by simp
  next
    case (Cons x xs)
    with Nil.prems have "mem ctx a = x" "x \<noteq> 0"
      by (auto simp add: upt_conv_Cons simp del: upt_Suc)
    with ld Cons show ?thesis by simp
  qed
next
  case (Cons c cs)
  have ld: "load_u8 ctx a = Some (mem ctx a)" using Cons.prems by (simp add: load_u8_def)
  have c0: "c \<noteq> 0" using Cons.prems(2) by auto
  show ?case
  proof (cases k)
    case Nil
    with Cons.prems have "mem ctx a = 0" by simp
    with ld c0 Nil show ?thesis by auto
  next
    case k: (Cons x xs)
    with Cons.prems have hd: "mem ctx a = x"
      and tl: "map (mem ctx) [Suc a..<Suc a + length xs] = xs"
      and tm: "mem ctx (Suc a + length xs) = 0"
      by (auto simp add: upt_conv_Cons simp del: upt_Suc)
    show ?thesis
    proof (cases "x = c")
      case False
      with ld hd k show ?thesis by simp
    next
      case True
      have "c_strcmp ctx cs (Suc a) = Inr (cs = xs)"
        by (rule Cons.IH) (use Cons.prems k tl tm in auto)
      with ld hd True c0 k show ?thesis by simp
    qed
  qed
qed

lemma c_strcmp_stored:
  "key_stored ctx r k \<Longrightarrow> 0 \<notin> set nm \<Longrightarrow>
   c_strcmp ctx nm (data_addr r + unat (name_ptr r)) = Inr (nm = k)"
  by (rule c_strcmp_stored_at) (simp_all add: key_stored_def)

lemma key_walk_reaches:
  assumes "key_walk ctx nm h s t" "0 \<notin> set nm"
  shows "chain_reaches ctx nm (length nm) h s t"
  using assms
proof (induction rule: key_walk.induct)
  case (stay s)
  show ?case by (rule chain_reaches.here)
next
  case (other_hash s r t)
  have sk: "chain_skip ctx nm (length nm) h s"
    using other_hash.hyps
    by (simp add: chain_skip_def MC_SLOT_WITHIN_BOUNDS_def sss_nss_mc_get_record_def)
  have nx: "sss_nss_mc_next_slot_with_hash (snd (sss_nss_mc_get_record ctx s)) h = next_same_hash r"
    using other_hash.hyps
    by (simp add: sss_nss_mc_next_slot_with_hash_def sss_nss_mc_get_record_def)
  show ?case
    by (rule chain_reaches.step [OF sk]) (simp add: nx other_hash.IH other_hash.prems)
next
  case (other_key s r k t)
  have cmp: "c_strcmp ctx nm (data_addr r + unat (name_ptr r)) = Inr False"
    using c_strcmp_stored [OF other_key.hyps(6) other_key.prems] other_key.hyps(7) by simp
  have sk: "chain_skip ctx nm (length nm) h s"
    using other_key.hyps cmp
    by (simp add: chain_skip_def MC_SLOT_WITHIN_BOUNDS_def sss_nss_mc_get_record_def
        integrity_violation_def not_less)
  have nx: "sss_nss_mc_next_slot_with_hash (snd (sss_nss_mc_get_record ctx s)) h = next_same_hash r"
    using other_key.hyps
    by (simp add: sss_nss_mc_next_slot_with_hash_def sss_nss_mc_get_record_def)
  show ?case
    by (rule chain_reaches.step [OF sk]) (simp add: nx other_key.IH other_key.prems)
qed

lemma key_record_match:
  assumes "key_record ctx nm h t r" "0 \<notin> set nm" "gids_addr r \<le> max_addr_of ctx"
  shows "chain_match ctx nm (length nm) h t r"
proof -
  from assms(1) have ks: "key_stored ctx r nm" by (simp add: key_record_def)
  have cmp: "c_strcmp ctx nm (data_addr r + unat (name_ptr r)) = Inr True"
    using c_strcmp_stored [OF ks assms(2)] by simp
  have ke: "data_addr r + unat (name_ptr r) + length nm \<le> max_addr_of ctx"
    using ks by (simp add: key_stored_def)
  show ?thesis
    using assms ke cmp
    by (simp add: chain_match_def key_record_def MC_SLOT_WITHIN_BOUNDS_def
        sss_nss_mc_get_record_def integrity_violation_def not_less)
qed

lemma table_entry_starts:
  "attach e = 0 \<Longrightarrow> table_entry ctx (name_hash e nm) slot0 \<Longrightarrow>
   lookup_starts e ctx nm (length nm) slot0"
  by (simp add: lookup_starts_def table_entry_def key_hash_def name_hash_def
      sss_nss_mc_hash_def hash_slot_def)

lemma key_hash_name_hash: "key_hash e nm (length nm) = name_hash e nm"
  by (simp add: key_hash_def name_hash_def sss_nss_mc_hash_def)

lemma readable_gids_addr: "readable ctx r n \<Longrightarrow> gids_addr r \<le> max_addr_of ctx"
  by (simp add: readable_def)

lemma lookup_present:
  assumes att: "attach e = 0" and nz: "0 \<notin> set nm"
    and te: "table_entry ctx (name_hash e nm) slot0"
    and kw: "key_walk ctx nm (name_hash e nm) slot0 t"
    and kr: "key_record ctx nm (name_hash e nm) t r"
    and ga: "gids_addr r \<le> max_addr_of ctx"
  shows "sss_nss_mc_initgroups_dyn e ctx nm (length nm) buf limit =
     (case sss_nss_mc_parse_result e ctx r buf limit of
        Inl f \<Rightarrow> Some (Inl f)
      | Inr (ret, buf') \<Rightarrow> Some (Inr (ret, ctx, buf')))"
  by (rule lookup_found [OF table_entry_starts [OF att te], of t])
     (simp_all add: key_hash_name_hash key_walk_reaches [OF kw nz] key_record_match [OF kr nz ga])

lemma copy_gids_in_bounds:
  "copy_gids ctx r i n buf = Inr buf' \<Longrightarrow> 0 < n \<Longrightarrow>
     0 \<le> start buf \<and> nat (start buf) + n \<le> length (groups buf)"
proof (induction n arbitrary: i buf)
  case 0
  then show ?case by simp
next
  case (Suc n)
  from Suc.prems(1) obtain g where
    rng: "0 \<le> start buf" "start buf < int (length (groups buf))"
    and rec: "copy_gids ctx r (Suc i) n
                (buf\<lparr>groups := (groups buf)[nat (start buf) := g], start := start buf + 1\<rparr>) = Inr buf'"
    by (auto split: option.splits if_splits)
  show ?case
  proof (cases n)
    case 0
    with rng show ?thesis by simp
  next
    case (Suc m)
    then have "0 < n" by simp
    from Suc.IH [OF rec this] rng show ?thesis by (simp add: nat_add_distrib)
  qed
qed

lemma copy_gids_keeps_wf:
  assumes "copy_gids ctx r i n buf = Inr buf'" "wf_buf buf"
  shows "wf_buf buf'"
proof (cases "n = 0")
  case True
  with assms show ?thesis by simp
next
  case False
  then have n: "0 < n" by simp
  note fr = copy_gids_frame [OF assms(1)]
  note ib = copy_gids_in_bounds [OF assms(1) n]
  have "start buf + int n \<le> int (length (groups buf))" using ib by linarith
  then show ?thesis using fr assms(2) ib by (simp add: wf_buf_def)
qed

lemma parse_result_within:
  assumes ret: "sss_nss_mc_parse_result e ctx r buf limit = Inr (ret, buf')"
    and bw: "buf_within buf limit"
  shows "buf_within buf' limit"
proof -
  have wf: "wf_buf buf" and cap: "0 < limit \<longrightarrow> bsize buf \<le> limit"
    using bw by (simp_all add: buf_within_def)
  have s0: "0 \<le> start buf" and sb: "start buf \<le> bsize buf"
    and bs: "bsize buf = int (length (groups buf))"
    using wf by (simp_all add: wf_buf_def)
  show ?thesis
  proof (cases "expire r < now e")
    case True
    with ret have "buf' = buf" by (simp add: sss_nss_mc_parse_result_def)
    with bw show ?thesis by simp
  next
    case live: False
    show ?thesis
    proof (cases "bsize buf - start buf < uint (members r)")
      case False
      with live ret have cp: "copy_gids ctx r 0 (nat (uint (members r))) buf = Inr buf'"
        by (auto simp add: sss_nss_mc_parse_result_def Let_def map_sum_def split: sum.splits)
      have "wf_buf buf'" by (rule copy_gids_keeps_wf [OF cp wf])
      moreover have "bsize buf' = bsize buf" using copy_gids_frame [OF cp] by simp
      ultimately show ?thesis using cap by (simp add: buf_within_def)
    next
      case g: True
      let ?Z = "bsize buf + uint (members r)"
      let ?cl = "0 < limit \<and> limit < ?Z"
      let ?N = "if ?cl then limit else ?Z"
      let ?m = "if ?cl then ?N - start buf else uint (members r)"
      have u0: "0 \<le> uint (members r)" by simp
      have "start buf \<le> ?Z" using sb u0 by linarith
      moreover have "0 < limit \<longrightarrow> start buf \<le> limit" using sb cap by linarith
      ultimately have sN: "start buf \<le> ?N" by simp
      have Nl: "0 < limit \<longrightarrow> ?N \<le> limit" by auto
      show ?thesis
      proof (cases "realloc_gids e (groups buf) ?N")
        case None
        with live g ret have "buf' = buf"
          by (simp add: sss_nss_mc_parse_result_def Let_def)
        with bw show ?thesis by simp
      next
        case (Some ys)
        then have ys: "ys = grown e (groups buf) ?N" and Np: "0 < ?N"
          by (simp_all add: realloc_gids_Some)
        let ?b = "buf\<lparr>groups := grown e (groups buf) ?N, bsize := ?N\<rparr>"
        from live g ret Some
        have cp: "copy_gids ctx r 0 (nat ?m) ?b = Inr buf'"
          unfolding ys
          by (auto simp add: sss_nss_mc_parse_result_def Let_def map_sum_def split: sum.splits)
        have wfb: "wf_buf ?b" using s0 sN Np by (simp add: wf_buf_def)
        have "wf_buf buf'" by (rule copy_gids_keeps_wf [OF cp wfb])
        moreover have "bsize buf' = ?N" using copy_gids_frame [OF cp] by simp
        ultimately show ?thesis using Nl by (simp add: buf_within_def)
      qed
    qed
  qed
qed

lemma buf_within_frame_hyps:
  "buf_within buf limit \<Longrightarrow> wf_buf buf \<and> (0 < limit \<longrightarrow> start buf \<le> limit)"
  by (auto simp add: buf_within_def wf_buf_def)

section \<open>Facts about the cache with the longer chain\<close>

lemma chain_basics:
  "max_addr_of chain_ctx = 1200" "dt_size chain_ctx = 200" "data_table chain_ctx = 1000"
  "mem chain_ctx = chain_mem"
  "slot_rec chain_ctx 40 = (0, rec_cat)" "slot_rec chain_ctx 80 = (0, rec_eve)"
  "slot_rec chain_ctx 120 = (0, rec_ann_mid)" "slot_rec chain_ctx 160 = (0, rec_bob_last)"
  by (simp_all add: max_addr_of_def chain_ctx_def chain_slots_def)

lemma chain_hash: "name_hash ex_env ann = 7" "name_hash ex_env bob = 7"
  by (simp_all add: name_hash_def ex_env_def ex_hashf_def ann_def bob_def dan_def)

lemma chain_entry: "table_entry chain_ctx 7 40"
  by (simp add: table_entry_def chain_ctx_def)

lemma chain_keys:
  "key_stored chain_ctx rec_cat cat" "key_stored chain_ctx rec_ann_mid ann"
  "key_stored chain_ctx rec_bob_last bob"
  by (simp_all add: key_stored_def chain_basics)
     (simp_all add: rec_cat_def rec_ann_mid_def rec_bob_last_def rec_ann_def rec_bob_def
        cat_def ann_def bob_def chain_mem_def ex_mem_def upt_conv_Cons del: upt_Suc)

lemma chain_fields:
  "hash1 rec_cat = 7" "hash1 rec_eve = 9" "hash1 rec_ann_mid = 7" "hash1 rec_bob_last = 7"
  "next_same_hash rec_cat = 80" "next_same_hash rec_eve = 120" "next_same_hash rec_ann_mid = 160"
  "gids_addr rec_cat = 1128" "gids_addr rec_ann_mid = 1064" "gids_addr rec_bob_last = 1024"
  "data_addr rec_cat + unat (name_ptr rec_cat) = 1140"
  "data_addr rec_ann_mid + unat (name_ptr rec_ann_mid) = 1084"
  "members rec_ann_mid = 5" "members rec_bob_last = 3"
  "expire rec_ann_mid = 1000" "expire rec_bob_last = 1000"
  by (simp_all add: rec_cat_def rec_eve_def rec_ann_mid_def rec_bob_last_def rec_ann_def
      rec_bob_def gids_addr_def)

lemma chain_walk_ann: "key_walk chain_ctx ann 7 40 120"
proof (rule key_walk.other_key [of _ _ rec_cat _ _ cat])
  show "40 < dt_size chain_ctx" "slot_rec chain_ctx 40 = (0, rec_cat)" "hash1 rec_cat = 7"
    "gids_addr rec_cat \<le> max_addr_of chain_ctx"
    "data_addr rec_cat + unat (name_ptr rec_cat) + length ann \<le> max_addr_of chain_ctx"
    "key_stored chain_ctx rec_cat cat" "cat \<noteq> ann"
    by (simp_all add: chain_basics chain_fields chain_keys) (simp_all add: ann_def cat_def)
  show "key_walk chain_ctx ann 7 (next_same_hash rec_cat) 120"
    unfolding chain_fields
  proof (rule key_walk.other_hash [of _ _ rec_eve])
    show "80 < dt_size chain_ctx" "slot_rec chain_ctx 80 = (0, rec_eve)" "hash1 rec_eve \<noteq> 7"
      by (simp_all add: chain_basics chain_fields)
    show "key_walk chain_ctx ann 7 (next_same_hash rec_eve) 120"
      unfolding chain_fields by (rule key_walk.stay)
  qed
qed



lemma chain_records:
  "key_record chain_ctx ann 7 120 rec_ann_mid" "key_record chain_ctx bob 7 160 rec_bob_last"
  by (simp_all add: key_record_def chain_basics chain_fields chain_keys)

lemma chain_payload:
  "payload_at chain_ctx rec_bob_last 3 = [11, 12, 13]"
  "payload_at chain_ctx rec_ann_mid 5 = [21, 22, 23, 24, 25]"
  by (simp_all add: payload_at_def upt_conv_Cons gid_at_def peek_u32_def chain_fields chain_basics
      chain_mem_def ex_mem_def del: upt_Suc)

lemma chain_readable: "readable chain_ctx rec_bob_last 3" "readable chain_ctx rec_ann_mid 5"
  by (simp_all add: readable_def chain_basics chain_fields)

lemma nonzero_names: "0 \<notin> set ann" "0 \<notin> set bob"
  by (simp_all add: ann_def bob_def)

lemma lookup_check_fails:
  assumes att: "attach e = 0" and nz: "0 \<notin> set nm"
    and te: "table_entry ctx (name_hash e nm) slot0"
    and kw: "key_walk ctx nm (name_hash e nm) slot0 t"
    and inb: "t < dt_size ctx" and rc: "slot_rec ctx t = (0, r)"
    and hs: "hash1 r = name_hash e nm"
    and viol: "max_addr_of ctx < gids_addr r
               \<or> max_addr_of ctx < data_addr r + unat (name_ptr r) + length nm"
  shows "chain_reject ctx (length nm) (name_hash e nm) t"
    and "sss_nss_mc_initgroups_dyn e ctx nm (length nm) buf limit = Some (Inr (ENOENT, ctx, buf))"
proof -
  show rj: "chain_reject ctx (length nm) (name_hash e nm) t"
    using inb rc hs viol
    by (simp add: chain_reject_def MC_SLOT_WITHIN_BOUNDS_def sss_nss_mc_get_record_def
        integrity_violation_def)
  show "sss_nss_mc_initgroups_dyn e ctx nm (length nm) buf limit = Some (Inr (ENOENT, ctx, buf))"
    by (rule lookup_rejected [OF table_entry_starts [OF att te], of t])
       (simp_all add: key_hash_name_hash key_walk_reaches [OF kw nz] rj)
qed

lemma bad_basics:
  "max_addr_of bad_key_ctx = 1200" "dt_size bad_key_ctx = 200" "data_table bad_key_ctx = 1000"
  "mem bad_key_ctx = chain_mem"
  "slot_rec bad_key_ctx 40 = (0, rec_cat)" "slot_rec bad_key_ctx 80 = (0, rec_eve)"
  "slot_rec bad_key_ctx 120 = (0, rec_far_key)" "slot_rec bad_key_ctx 160 = (0, rec_bob_last)"
  "table_entry bad_key_ctx 7 40"
  "max_addr_of bad_gids_ctx = 1200" "dt_size bad_gids_ctx = 200" "data_table bad_gids_ctx = 1000"
  "mem bad_gids_ctx = chain_mem"
  "slot_rec bad_gids_ctx 40 = (0, rec_cat)" "slot_rec bad_gids_ctx 80 = (0, rec_eve)"
  "slot_rec bad_gids_ctx 120 = (0, rec_far_gids)" "slot_rec bad_gids_ctx 160 = (0, rec_bob_last)"
  "table_entry bad_gids_ctx 7 40"
  by (simp_all add: max_addr_of_def table_entry_def bad_key_ctx_def bad_gids_ctx_def chain_ctx_def
      chain_slots_def)

lemma far_fields:
  "hash1 rec_far_key = 7" "hash1 rec_far_gids = 7"
  "next_same_hash rec_far_key = 160" "next_same_hash rec_far_gids = 160"
  "data_addr rec_far_key + unat (name_ptr rec_far_key) = 5056"
  "gids_addr rec_far_key = 1064"
  "data_addr rec_far_gids + unat (name_ptr rec_far_gids) = 1084"
  "gids_addr rec_far_gids = 5056"
  by (simp_all add: rec_far_key_def rec_far_gids_def rec_ann_mid_def rec_ann_def gids_addr_def)

lemma walk_cat_eve:
  assumes "dt_size c = 200" "max_addr_of c = 1200" "data_table c = 1000" "mem c = chain_mem"
    "slot_rec c 40 = (0, rec_cat)" "slot_rec c 80 = (0, rec_eve)"
  shows "key_walk c bob 7 40 120"
proof (rule key_walk.other_key [of _ _ rec_cat _ _ cat])
  have ks: "key_stored c rec_cat cat"
    using chain_keys(1) assms by (simp add: key_stored_def chain_basics)
  show "40 < dt_size c" "slot_rec c 40 = (0, rec_cat)" "hash1 rec_cat = 7"
    "gids_addr rec_cat \<le> max_addr_of c"
    "data_addr rec_cat + unat (name_ptr rec_cat) + length bob \<le> max_addr_of c"
    "key_stored c rec_cat cat" "cat \<noteq> bob"
    by (simp_all add: assms chain_fields ks) (simp_all add: bob_def cat_def)
  show "key_walk c bob 7 (next_same_hash rec_cat) 120"
    unfolding chain_fields
  proof (rule key_walk.other_hash [of _ _ rec_eve])
    show "80 < dt_size c" "slot_rec c 80 = (0, rec_eve)" "hash1 rec_eve \<noteq> 7"
      by (simp_all add: assms chain_fields)
    show "key_walk c bob 7 (next_same_hash rec_eve) 120"
      unfolding chain_fields by (rule key_walk.stay)
  qed
qed

lemma bad_walks: "key_walk bad_key_ctx bob 7 40 120" "key_walk bad_gids_ctx bob 7 40 120"
  by (rule walk_cat_eve; simp add: bad_basics)+

lemma bad_records:
  "key_record bad_key_ctx bob 7 160 rec_bob_last" "key_record bad_gids_ctx bob 7 160 rec_bob_last"
  using chain_keys(3)
  by (simp_all add: key_record_def key_stored_def bad_basics chain_basics chain_fields)

lemma tight_facts:
  "max_addr_of tight_ctx = 1088"
  "lookup_starts ex_env tight_ctx ann 3 0"
  "chain_reaches tight_ctx ann 3 7 0 40"
  "chain_match tight_ctx ann 3 7 40 rec_ann"
proof -
  show ma: "max_addr_of tight_ctx = 1088"
    by (simp add: max_addr_of_def tight_ctx_def ex_ctx_def)
  show "lookup_starts ex_env tight_ctx ann 3 0"
    by (simp add: lookup_starts_def ex_hash hash_slot_def)
       (simp add: tight_ctx_def ex_ctx_def ex_env_def)
  have cmp: "c_strcmp tight_ctx ann 1036 = Inr False" "c_strcmp tight_ctx ann 1084 = Inr True"
    by (simp_all add: ann_def load_u8_def ma) (simp_all add: tight_ctx_def ex_ctx_def ex_mem_def)
  have rc: "sss_nss_mc_get_record tight_ctx 0 = (0, rec_bob)"
    "sss_nss_mc_get_record tight_ctx 40 = (0, rec_ann)"
    by (simp_all add: sss_nss_mc_get_record_def tight_ctx_def ex_ctx_def ex_slots_def)
  have dt: "dt_size tight_ctx = 88" by (simp add: tight_ctx_def)
  have sk: "chain_skip tight_ctx ann 3 7 0"
    by (simp add: chain_skip_def MC_SLOT_WITHIN_BOUNDS_def rc dt integrity_violation_def
        gids_addr_def ma Let_def)
       (simp add: rec_bob_def cmp)
  have nx: "sss_nss_mc_next_slot_with_hash (snd (sss_nss_mc_get_record tight_ctx 0)) 7 = 40"
    by (simp add: sss_nss_mc_next_slot_with_hash_def rc rec_bob_def)
  show "chain_reaches tight_ctx ann 3 7 0 40"
  proof (rule chain_reaches.step [OF sk])
    show "chain_reaches tight_ctx ann 3 7
            (sss_nss_mc_next_slot_with_hash (snd (sss_nss_mc_get_record tight_ctx 0)) 7) 40"
      unfolding nx by (rule chain_reaches.here)
  qed
  show "chain_match tight_ctx ann 3 7 40 rec_ann"
    by (simp add: chain_match_def MC_SLOT_WITHIN_BOUNDS_def rc dt integrity_violation_def
        gids_addr_def ma)
       (simp add: rec_ann_def cmp)
qed

section \<open>The claims\<close>

text \<open>
  Claim C1: for every candidate record both the payload end address (record address +
  payload offset + 4 * payload count) and the key end address are verified against the
  end of the arena before the payload or the key is read, and a violation yields "not
  found", never an out-of-bounds read.

  The check of lines 134 and 135 compares the address where the array \<^verbatim>\<open>data->gids\<close>
  starts, not where it ends. In \<open>short_ctx\<close> the record at slot 0 passes the check and
  the comparison of the key, its payload ends behind the data table, and the lookup of
  \<^verbatim>\<open>bob\<close> reads the fifth entry outside the data table instead of answering "not
  found".
\<close>

theorem c1_payload_end_not_checked:
  "\<not> integrity_violation rec_long 3 (max_addr_of short_ctx)
   \<and> max_addr_of short_ctx < gids_addr rec_long + 4 * unat (members rec_long)
   \<and> chain_match short_ctx bob 3 (key_hash ex_env bob 3) 0 rec_long
   \<and> sss_nss_mc_initgroups_dyn ex_env short_ctx bob 3 buf8 0 = Some (Inl OOB_read)"
proof -
  have iv: "\<not> integrity_violation rec_long 3 (max_addr_of short_ctx)"
    using short_facts(3) by (simp add: chain_match_def)
  have pe: "max_addr_of short_ctx < gids_addr rec_long + 4 * unat (members rec_long)"
    by (simp add: short_facts gids_addr_def rec_long_def rec_bob_def)
  have ma: "chain_match short_ctx bob 3 (key_hash ex_env bob 3) 0 rec_long"
    unfolding ex_hash by (rule short_facts)
  have re: "chain_reaches short_ctx bob 3 (key_hash ex_env bob 3) 0 0"
    by (rule chain_reaches.here)
  have ld: "load_u32 short_ctx a = (if 1000 \<le> a \<and> a + 4 \<le> 1040 then Some (peek_u32 short_ctx a) else None)" for a
    by (simp add: load_u32_def short_facts) (simp add: short_ctx_def ex_ctx_def)
  have cp: "copy_gids short_ctx rec_long 0 5 buf8 = Inl OOB_read"
    by (simp add: eval_nat_numeral ld gids_addr_def rec_long_def rec_bob_def buf8_def)
  have "sss_nss_mc_parse_result ex_env short_ctx rec_long buf8 0 = Inl OOB_read"
  proof -
    have f: "expire rec_long = 1000" "members rec_long = 5" "now ex_env = 500"
      "bsize buf8 = 8" "start buf8 = 0"
      by (simp_all add: rec_long_def rec_bob_def ex_env_def buf8_def)
    show ?thesis
      by (simp add: sss_nss_mc_parse_result_def Let_def f cp)
  qed
  then have "sss_nss_mc_initgroups_dyn ex_env short_ctx bob 3 buf8 0 = Some (Inl OOB_read)"
    by (simp add: lookup_found [OF short_facts(2) re ma])
  then show ?thesis using iv pe ma by simp
qed

text \<open>
  Claim C2, as stated: after a candidate is rejected by the bounds check the lookup
  continues the chain through the link to the next candidate. In \<open>bad_key_ctx\<close> and in
  \<open>bad_gids_ctx\<close> the record at slot 120 has the hash of \<^verbatim>\<open>bob\<close> and lies beyond the
  end of the data table, with the end of its key in the first cache and with the start
  of its array of groups in the second. Its link leads to slot 160, where the record of
  \<^verbatim>\<open>bob\<close> is stored and where the loop would stop with a match; yet the loop that
  arrives at slot 120 leaves with \<^verbatim>\<open>ENOENT\<close>, and so does the lookup of \<^verbatim>\<open>bob\<close>.
\<close>

theorem c2_counterexample:
  "name_hash ex_env bob = 7
   \<and> hash1 rec_far_key = 7
   \<and> max_addr_of bad_key_ctx < data_addr rec_far_key + unat (name_ptr rec_far_key) + length bob
   \<and> next_same_hash rec_far_key = 160
   \<and> key_record bad_key_ctx bob 7 160 rec_bob_last
   \<and> mc_loop bad_key_ctx bob (length bob) (max_addr_of bad_key_ctx) 7 160
        = Some (Inr (Loop_break 160 rec_bob_last))
   \<and> mc_loop bad_key_ctx bob (length bob) (max_addr_of bad_key_ctx) 7 120
        = Some (Inr (Goto_done ENOENT))
   \<and> sss_nss_mc_initgroups_dyn ex_env bad_key_ctx bob (length bob) buf4 0
        = Some (Inr (ENOENT, bad_key_ctx, buf4))
   \<and> hash1 rec_far_gids = 7
   \<and> max_addr_of bad_gids_ctx < gids_addr rec_far_gids
   \<and> next_same_hash rec_far_gids = 160
   \<and> key_record bad_gids_ctx bob 7 160 rec_bob_last
   \<and> mc_loop bad_gids_ctx bob (length bob) (max_addr_of bad_gids_ctx) 7 160
        = Some (Inr (Loop_break 160 rec_bob_last))
   \<and> mc_loop bad_gids_ctx bob (length bob) (max_addr_of bad_gids_ctx) 7 120
        = Some (Inr (Goto_done ENOENT))
   \<and> sss_nss_mc_initgroups_dyn ex_env bad_gids_ctx bob (length bob) buf4 0
        = Some (Inr (ENOENT, bad_gids_ctx, buf4))"
proof -
  have att: "attach ex_env = 0" by (simp add: ex_env_def)
  note nz = nonzero_names(2)
  have v1: "max_addr_of bad_key_ctx < gids_addr rec_far_key
            \<or> max_addr_of bad_key_ctx < data_addr rec_far_key + unat (name_ptr rec_far_key) + length bob"
    by (simp add: bad_basics far_fields)
  have v2: "max_addr_of bad_gids_ctx < gids_addr rec_far_gids
            \<or> max_addr_of bad_gids_ctx < data_addr rec_far_gids + unat (name_ptr rec_far_gids) + length bob"
    by (simp add: bad_basics far_fields)
  have g1: "gids_addr rec_bob_last \<le> max_addr_of bad_key_ctx"
    and g2: "gids_addr rec_bob_last \<le> max_addr_of bad_gids_ctx"
    by (simp_all add: bad_basics chain_fields)
  have c1: "120 < dt_size bad_key_ctx" "hash1 rec_far_key = name_hash ex_env bob"
    and c2: "120 < dt_size bad_gids_ctx" "hash1 rec_far_gids = name_hash ex_env bob"
    by (simp_all add: bad_basics far_fields chain_hash)
  have te1: "table_entry bad_key_ctx (name_hash ex_env bob) 40"
    and te2: "table_entry bad_gids_ctx (name_hash ex_env bob) 40"
    by (simp_all add: chain_hash bad_basics)
  have kw1: "key_walk bad_key_ctx bob (name_hash ex_env bob) 40 120"
    and kw2: "key_walk bad_gids_ctx bob (name_hash ex_env bob) 40 120"
    by (simp_all add: chain_hash bad_walks)
  note r1 = lookup_check_fails [OF att nz te1 kw1 c1(1) bad_basics(7) c1(2) v1]
  note r2 = lookup_check_fails [OF att nz te2 kw2 c2(1) bad_basics(16) c2(2) v2]
  show ?thesis
    using mc_loop_match [OF key_record_match [OF bad_records(1) nz g1]]
      mc_loop_match [OF key_record_match [OF bad_records(2) nz g2]]
      mc_loop_reject [OF r1(1), of bob] mc_loop_reject [OF r2(1), of bob]
      r1(2) [of buf4 0] r2(2) [of buf4 0]
    by (simp add: chain_hash bad_basics far_fields bad_records)
qed

text \<open>
  Claim C2, amended: when the chain of the key leads, over records of other keys, to a
  record inside the extent that has the hash of the key and whose array of groups
  starts beyond the end of the data table, or whose key offset plus the length of the
  key lies beyond it, the lookup ends at once with \<^verbatim>\<open>ENOENT\<close> ("not found"), whatever
  the rest of the chain holds; the result buffer is unchanged and the reader count is
  released.
\<close>

theorem c2_rejection_ends_lookup:
  assumes att: "attach e = 0" and nz: "0 \<notin> set nm"
    and te: "table_entry ctx (name_hash e nm) slot0"
    and kw: "key_walk ctx nm (name_hash e nm) slot0 t"
    and inb: "t < dt_size ctx" and rc: "slot_rec ctx t = (0, r)"
    and hs: "hash1 r = name_hash e nm"
    and viol: "max_addr_of ctx < gids_addr r
               \<or> max_addr_of ctx < data_addr r + unat (name_ptr r) + length nm"
  shows "sss_nss_mc_initgroups_dyn e ctx nm (length nm) buf limit = Some (Inr (ENOENT, ctx, buf))"
  by (rule lookup_check_fails(2) [OF att nz te kw inb rc hs viol])

text \<open>
  The amended claim C2 at the two damaged caches, one for each of the two tests of
  lines 134 and 135: the lookup of \<^verbatim>\<open>bob\<close> passes over two records, arrives at the
  damaged record at slot 120 and answers "not found".
\<close>

theorem c2_rejection_ends_lookup_witness:
  "attach ex_env = 0 \<and> 0 \<notin> set bob
   \<and> table_entry bad_key_ctx (name_hash ex_env bob) 40
   \<and> key_walk bad_key_ctx bob (name_hash ex_env bob) 40 120
   \<and> 120 < dt_size bad_key_ctx \<and> slot_rec bad_key_ctx 120 = (0, rec_far_key)
   \<and> hash1 rec_far_key = name_hash ex_env bob
   \<and> max_addr_of bad_key_ctx < data_addr rec_far_key + unat (name_ptr rec_far_key) + length bob
   \<and> sss_nss_mc_initgroups_dyn ex_env bad_key_ctx bob (length bob) buf22 0
        = Some (Inr (ENOENT, bad_key_ctx, buf22))
   \<and> table_entry bad_gids_ctx (name_hash ex_env bob) 40
   \<and> key_walk bad_gids_ctx bob (name_hash ex_env bob) 40 120
   \<and> 120 < dt_size bad_gids_ctx \<and> slot_rec bad_gids_ctx 120 = (0, rec_far_gids)
   \<and> hash1 rec_far_gids = name_hash ex_env bob
   \<and> max_addr_of bad_gids_ctx < gids_addr rec_far_gids
   \<and> sss_nss_mc_initgroups_dyn ex_env bad_gids_ctx bob (length bob) buf22 0
        = Some (Inr (ENOENT, bad_gids_ctx, buf22))"
proof -
  have att: "attach ex_env = 0" by (simp add: ex_env_def)
  note nz = nonzero_names(2)
  have k1: "max_addr_of bad_key_ctx < data_addr rec_far_key + unat (name_ptr rec_far_key) + length bob"
    by (simp add: bad_basics far_fields)
  have k2: "max_addr_of bad_gids_ctx < gids_addr rec_far_gids"
    by (simp add: bad_basics far_fields)
  have c1: "120 < dt_size bad_key_ctx" "hash1 rec_far_key = name_hash ex_env bob"
    and c2: "120 < dt_size bad_gids_ctx" "hash1 rec_far_gids = name_hash ex_env bob"
    by (simp_all add: bad_basics far_fields chain_hash)
  have te1: "table_entry bad_key_ctx (name_hash ex_env bob) 40"
    and te2: "table_entry bad_gids_ctx (name_hash ex_env bob) 40"
    by (simp_all add: chain_hash bad_basics)
  have kw1: "key_walk bad_key_ctx bob (name_hash ex_env bob) 40 120"
    and kw2: "key_walk bad_gids_ctx bob (name_hash ex_env bob) 40 120"
    by (simp_all add: chain_hash bad_walks)
  have r1: "sss_nss_mc_initgroups_dyn ex_env bad_key_ctx bob (length bob) buf22 0
        = Some (Inr (ENOENT, bad_key_ctx, buf22))"
    by (rule c2_rejection_ends_lookup [OF att nz te1 kw1 c1(1) bad_basics(7) c1(2)])
       (simp add: k1)
  have r2: "sss_nss_mc_initgroups_dyn ex_env bad_gids_ctx bob (length bob) buf22 0
        = Some (Inr (ENOENT, bad_gids_ctx, buf22))"
    by (rule c2_rejection_ends_lookup [OF att nz te2 kw2 c2(1) bad_basics(16) c2(2)])
       (simp add: k2)
  show ?thesis
    using att nz te1 kw1 c1 bad_basics(7) k1 r1 te2 kw2 c2 bad_basics(16) k2 r2 by simp
qed

text \<open>
  Claim C3: whatever a lookup returns, the reader count after the call equals the reader
  count before the call; when the cache was attached, the count taken by
  \<^verbatim>\<open>sss_nss_mc_get_ctx\<close> is decremented exactly once.
\<close>

theorem c3_reader_count_balanced:
  assumes "sss_nss_mc_initgroups_dyn e ctx nm name_len buf limit = Some (Inr (ret, ctx', buf'))"
  shows "active_threads ctx' = active_threads ctx
       \<and> (attach e = 0 \<longrightarrow>
            active_threads ctx' = active_threads (snd (sss_nss_mc_get_ctx e ctx)) - 1)"
  using lookup_returns [OF assms] by (auto simp add: sss_nss_mc_get_ctx_def)

text \<open>
  Claim C3 at four calls on the small cache that end with success, "not found",
  "expired" and "allocation failure".
\<close>

theorem c3_reader_count_balanced_witness:
  "sss_nss_mc_initgroups_dyn ex_env ex_ctx bob 3 buf4 0 =
     Some (Inr (EOK, ex_ctx, \<lparr>start = 3, bsize = 4, groups = [11, 12, 13, 0]\<rparr>))
   \<and> sss_nss_mc_initgroups_dyn ex_env ex_ctx cat 3 buf4 0 = Some (Inr (ENOENT, ex_ctx, buf4))
   \<and> sss_nss_mc_initgroups_dyn ex_env_late ex_ctx bob 3 buf4 0 = Some (Inr (EINVAL, ex_ctx, buf4))
   \<and> sss_nss_mc_initgroups_dyn ex_env_nomem ex_ctx ann 3 buf22 0 =
        Some (Inr (ENOMEM, ex_ctx, buf22))
   \<and> active_threads ex_ctx = 4
   \<and> active_threads (snd (sss_nss_mc_get_ctx ex_env ex_ctx)) = 5
   \<and> active_threads ex_ctx = active_threads (snd (sss_nss_mc_get_ctx ex_env ex_ctx)) - 1
   \<and> active_threads ex_ctx = active_threads (snd (sss_nss_mc_get_ctx ex_env_late ex_ctx)) - 1
   \<and> active_threads ex_ctx = active_threads (snd (sss_nss_mc_get_ctx ex_env_nomem ex_ctx)) - 1"
proof -
  have n: "active_threads ex_ctx = 4" by (simp add: ex_ctx_def)
  have a: "active_threads (snd (sss_nss_mc_get_ctx ex_env ex_ctx)) = 5"
    by (simp add: sss_nss_mc_get_ctx_def ex_key_hash n)
  show ?thesis
    using c3_reader_count_balanced [OF ex_run_success] c3_reader_count_balanced [OF ex_run_missing]
      c3_reader_count_balanced [OF ex_run_expired] c3_reader_count_balanced [OF ex_run_nomem]
      ex_run_success ex_run_missing ex_run_expired ex_run_nomem n a
    by (simp add: ex_key_hash)
qed

text \<open>
  Claim C4: under a hard limit that capacity + payload count exceeds, the buffer is
  grown to the hard limit and only \<open>limit - start\<close> entries of the payload are copied.

  Line 67 sets \<^verbatim>\<open>max_ret = limit - *start\<close> without comparing it with the count of
  members, so the loop of lines 78 to 81 copies \<open>limit - start\<close> entries even when the
  payload has fewer. With cursor 2, capacity 4, hard limit 6 and the payload of three
  groups of \<^verbatim>\<open>bob\<close>, the premises of the claim hold and \<open>limit - start\<close> is 4: four
  entries are copied, and the fourth is not a group of the record but the four bytes
  that follow the payload (here the name \<^verbatim>\<open>bob\<close> with its terminator, read as the
  number 6451042). In \<open>tight_ctx\<close>, with cursor 0, capacity 4, hard limit 8 and the
  payload of five groups of \<^verbatim>\<open>ann\<close>, which lies inside the data table, the loop is to
  copy eight entries and the seventh is read outside the data table.
\<close>

theorem c4_copies_past_payload:
  "members rec_bob = 3
   \<and> payload_at ex_ctx rec_bob 3 = [11, 12, 13]
   \<and> wf_buf buf24 \<and> bsize buf24 \<le> 6
   \<and> bsize buf24 - start buf24 < uint (members rec_bob)
   \<and> 6 < bsize buf24 + uint (members rec_bob)
   \<and> 6 - start buf24 = 4
   \<and> sss_nss_mc_initgroups_dyn ex_env ex_ctx bob 3 buf24 6 =
        Some (Inr (EOK, ex_ctx, \<lparr>start = 6, bsize = 6, groups = [1, 2, 11, 12, 13, 6451042]\<rparr>))
   \<and> members rec_ann = 5
   \<and> readable tight_ctx rec_ann 5
   \<and> wf_buf buf4 \<and> bsize buf4 \<le> 8
   \<and> bsize buf4 - start buf4 < uint (members rec_ann)
   \<and> 8 < bsize buf4 + uint (members rec_ann)
   \<and> 8 - start buf4 = 8
   \<and> sss_nss_mc_initgroups_dyn ex_env tight_ctx ann 3 buf4 8 = Some (Inl OOB_read)"
proof -
  have m3: "members rec_bob = 3" by (simp add: rec_bob_def)
  have m5: "members rec_ann = 5" by (simp add: rec_ann_def)
  have p4: "payload_at ex_ctx rec_bob 4 = [11, 12, 13, 6451042]"
    by (simp add: payload_at_def upt_conv_Cons gid_at_def peek_u32_def gids_addr_def rec_bob_def
        ex_ctx_def ex_mem_def del: upt_Suc)
  have rd: "readable ex_ctx rec_bob 4"
    by (simp add: readable_def ex_max_addr gids_addr_def) (simp add: ex_ctx_def rec_bob_def)
  have "sss_nss_mc_parse_result ex_env ex_ctx rec_bob buf24 6 =
          Inr (0, \<lparr>start = 6, bsize = 6, groups = [1, 2, 11, 12, 13, 6451042]\<rparr>)"
  proof -
    have f: "expire rec_bob = 1000" "now ex_env = 500" "alloc_ok ex_env" "fresh ex_env = 0"
      "bsize buf24 = 4" "start buf24 = 2" "groups buf24 = [1, 2, 3, 4]"
      by (simp_all add: rec_bob_def ex_env_def buf24_def)
    have res: "buf24\<lparr>groups := [1, 2, 11, 12, 13, 6451042], bsize := 6, start := 6\<rparr>
               = \<lparr>start = 6, bsize = 6, groups = [1, 2, 11, 12, 13, 6451042]\<rparr>"
      by (simp add: buf24_def)
    show ?thesis
      using parse_result_clamped [of rec_bob ex_env buf24 6 ex_ctx]
      by (simp add: m3 f grown_def rd p4 res)
  qed
  then have run: "sss_nss_mc_initgroups_dyn ex_env ex_ctx bob 3 buf24 6 =
        Some (Inr (EOK, ex_ctx, \<lparr>start = 6, bsize = 6, groups = [1, 2, 11, 12, 13, 6451042]\<rparr>))"
    by (simp add: ex_found_bob ex_env_def EOK_def)
  have rt: "readable tight_ctx rec_ann 5"
    by (simp add: readable_def tight_facts gids_addr_def) (simp add: tight_ctx_def ex_ctx_def rec_ann_def)
  have ld: "load_u32 tight_ctx a
              = (if 1000 \<le> a \<and> a + 4 \<le> 1088 then Some (peek_u32 tight_ctx a) else None)" for a
    by (simp add: load_u32_def tight_facts) (simp add: tight_ctx_def ex_ctx_def)
  have cp: "copy_gids tight_ctx rec_ann 0 8 \<lparr>start = 0, bsize = 8, groups = [0, 0, 0, 0, 0, 0, 0, 0]\<rparr>
              = Inl OOB_read"
    by (simp add: eval_nat_numeral ld gids_addr_def rec_ann_def)
  have "sss_nss_mc_parse_result ex_env tight_ctx rec_ann buf4 8 = Inl OOB_read"
  proof -
    have f: "expire rec_ann = 1000" "now ex_env = 500" "alloc_ok ex_env" "fresh ex_env = 0"
      "bsize buf4 = 4" "start buf4 = 0" "groups buf4 = [0, 0, 0, 0]"
      by (simp_all add: rec_ann_def ex_env_def buf4_def)
    have g: "realloc_gids ex_env [0, 0, 0, 0] 8 = Some [0, 0, 0, 0, 0, 0, 0, 0]"
      by (simp add: realloc_gids_def f eval_nat_numeral)
    have b: "buf4\<lparr>groups := [0, 0, 0, 0, 0, 0, 0, 0], bsize := 8\<rparr>
               = \<lparr>start = 0, bsize = 8, groups = [0, 0, 0, 0, 0, 0, 0, 0]\<rparr>"
      by (simp add: buf4_def)
    show ?thesis
      by (simp add: sss_nss_mc_parse_result_def Let_def f m5 g b cp)
  qed
  then have run2: "sss_nss_mc_initgroups_dyn ex_env tight_ctx ann 3 buf4 8 = Some (Inl OOB_read)"
    using lookup_found [OF tight_facts(2), of 40 rec_ann buf4 8]
    by (simp add: ex_hash tight_facts)
  have bw: "wf_buf buf24" "wf_buf buf4"
    by (simp_all add: wf_buf_def buf24_def buf4_def)
  show ?thesis
    using run run2 rt bw by (simp add: m3 m5 ex_payload_bob) (simp add: buf24_def buf4_def)
qed

text \<open>
  Claim C5: a lookup never modifies the entries below the cursor and writes only the
  tail from the cursor on. For a result buffer of the data model (cursor within the
  capacity, capacity the number of allocated cells and within the hard limit when one
  is set) and every lookup that returns a status: the entries below the cursor are
  unchanged, the cursor does not move back, the old cells from the new cursor on are
  unchanged, and the buffer is again one of the data model. When the key is present
  with a live record whose payload does not fit the free tail, and no hard limit is in
  the way, the lookup returns \<^verbatim>\<open>0\<close>, the entries below the cursor are kept, the groups of
  the record follow in order, and the capacity grows by the payload count.
\<close>

theorem c5_prefix_preserved:
  "(sss_nss_mc_initgroups_dyn e ctx nm name_len buf limit = Some (Inr (ret, ctx', buf'))
      \<and> buf_within buf limit
    \<longrightarrow> take (nat (start buf)) (groups buf') = take (nat (start buf)) (groups buf)
        \<and> start buf \<le> start buf'
        \<and> (\<forall>j. nat (start buf') \<le> j \<and> j < length (groups buf) \<and> j < length (groups buf')
              \<longrightarrow> groups buf' ! j = groups buf ! j)
        \<and> buf_within buf' limit)
   \<and> (attach e = 0 \<and> 0 \<notin> set nm
      \<and> table_entry ctx (name_hash e nm) slot0
      \<and> key_walk ctx nm (name_hash e nm) slot0 t
      \<and> key_record ctx nm (name_hash e nm) t r
      \<and> \<not> expire r < now e
      \<and> bsize buf - start buf < uint (members r)
      \<and> (limit \<le> 0 \<or> bsize buf + uint (members r) \<le> limit)
      \<and> alloc_ok e \<and> buf_within buf limit \<and> readable ctx r (unat (members r))
    \<longrightarrow> sss_nss_mc_initgroups_dyn e ctx nm (length nm) buf limit =
          Some (Inr (EOK, ctx,
            buf\<lparr>groups := take (nat (start buf)) (groups buf) @ payload_at ctx r (unat (members r))
                     @ replicate (length (groups buf) - nat (start buf)) (fresh e),
                 bsize := bsize buf + uint (members r),
                 start := start buf + uint (members r)\<rparr>)))"
proof (intro conjI impI)
  assume h: "sss_nss_mc_initgroups_dyn e ctx nm name_len buf limit = Some (Inr (ret, ctx', buf'))
      \<and> buf_within buf limit"
  then have bw: "buf_within buf limit" by simp
  from buf_within_frame_hyps [OF bw]
  have wf: "wf_buf buf" and lim: "0 < limit \<longrightarrow> start buf \<le> limit" by simp_all
  from h lookup_returns [of e ctx nm name_len buf limit ret ctx' buf']
  consider "buf' = buf" | r' where "sss_nss_mc_parse_result e ctx r' buf limit = Inr (ret, buf')"
    by blast
  then have fr: "(take (nat (start buf)) (groups buf') = take (nat (start buf)) (groups buf)
        \<and> start buf \<le> start buf'
        \<and> (\<forall>j. nat (start buf') \<le> j \<and> j < length (groups buf) \<and> j < length (groups buf')
              \<longrightarrow> groups buf' ! j = groups buf ! j))
        \<and> buf_within buf' limit"
  proof cases
    case 1
    then show ?thesis using bw by simp
  next
    case 2
    show ?thesis
      using parse_result_frame [OF 2 wf lim] parse_result_within [OF 2 bw] by blast
  qed
  from fr show "take (nat (start buf)) (groups buf') = take (nat (start buf)) (groups buf)" by simp
  from fr show "start buf \<le> start buf'" by simp
  from fr show "\<forall>j. nat (start buf') \<le> j \<and> j < length (groups buf) \<and> j < length (groups buf')
              \<longrightarrow> groups buf' ! j = groups buf ! j" by simp
  from fr show "buf_within buf' limit" by simp
next
  assume h: "attach e = 0 \<and> 0 \<notin> set nm
      \<and> table_entry ctx (name_hash e nm) slot0
      \<and> key_walk ctx nm (name_hash e nm) slot0 t
      \<and> key_record ctx nm (name_hash e nm) t r
      \<and> \<not> expire r < now e
      \<and> bsize buf - start buf < uint (members r)
      \<and> (limit \<le> 0 \<or> bsize buf + uint (members r) \<le> limit)
      \<and> alloc_ok e \<and> buf_within buf limit \<and> readable ctx r (unat (members r))"
  then have att: "attach e = 0" and nz: "0 \<notin> set nm"
    and te: "table_entry ctx (name_hash e nm) slot0"
    and kw: "key_walk ctx nm (name_hash e nm) slot0 t"
    and kr: "key_record ctx nm (name_hash e nm) t r"
    and live: "\<not> expire r < now e"
    and grow: "bsize buf - start buf < uint (members r)"
    and nocl: "limit \<le> 0 \<or> bsize buf + uint (members r) \<le> limit"
    and ok: "alloc_ok e" and bw: "buf_within buf limit"
    and rd: "readable ctx r (unat (members r))"
    by simp_all
  from bw have wf: "wf_buf buf" by (simp add: buf_within_def)
  show "sss_nss_mc_initgroups_dyn e ctx nm (length nm) buf limit =
          Some (Inr (EOK, ctx,
            buf\<lparr>groups := take (nat (start buf)) (groups buf) @ payload_at ctx r (unat (members r))
                     @ replicate (length (groups buf) - nat (start buf)) (fresh e),
                 bsize := bsize buf + uint (members r),
                 start := start buf + uint (members r)\<rparr>))"
    by (simp add: lookup_present [OF att nz te kw kr readable_gids_addr [OF rd]]
        parse_result_grows [OF live grow nocl ok wf rd] EOK_def)
qed

text \<open>
  Claim C5 at cursor 2 and capacity 2: with hard limit 5 the two entries below the
  cursor are kept and the buffer stays within the limit, and without a hard limit the
  lookup of \<^verbatim>\<open>ann\<close> in the cache with the longer chain makes the buffer the two old
  entries followed by the five groups of the record.
\<close>

theorem c5_prefix_preserved_witness:
  "sss_nss_mc_initgroups_dyn ex_env ex_ctx ann 3 buf22 5 =
     Some (Inr (EOK, ex_ctx, \<lparr>start = 5, bsize = 5, groups = [1, 2, 21, 22, 23]\<rparr>))
   \<and> buf_within buf22 5
   \<and> take (nat (start buf22)) [1, 2, 21, 22, 23] = take (nat (start buf22)) (groups buf22)
   \<and> buf_within \<lparr>start = 5, bsize = 5, groups = [1, 2, 21, 22, 23]\<rparr> 5
   \<and> attach ex_env = 0 \<and> 0 \<notin> set ann
   \<and> table_entry chain_ctx (name_hash ex_env ann) 40
   \<and> key_walk chain_ctx ann (name_hash ex_env ann) 40 120
   \<and> key_record chain_ctx ann (name_hash ex_env ann) 120 rec_ann_mid
   \<and> \<not> expire rec_ann_mid < now ex_env
   \<and> bsize buf22 - start buf22 < uint (members rec_ann_mid)
   \<and> alloc_ok ex_env \<and> buf_within buf22 0
   \<and> readable chain_ctx rec_ann_mid (unat (members rec_ann_mid))
   \<and> sss_nss_mc_initgroups_dyn ex_env chain_ctx ann (length ann) buf22 0 =
        Some (Inr (EOK, chain_ctx, \<lparr>start = 7, bsize = 7, groups = [1, 2, 21, 22, 23, 24, 25]\<rparr>))"
proof -
  have bw5: "buf_within buf22 5" and bw0: "buf_within buf22 0"
    by (simp_all add: buf_within_def wf_buf_def buf22_def)
  have hyp1: "sss_nss_mc_initgroups_dyn ex_env ex_ctx ann 3 buf22 5 =
       Some (Inr (EOK, ex_ctx, \<lparr>start = 5, bsize = 5, groups = [1, 2, 21, 22, 23]\<rparr>))
     \<and> buf_within buf22 5"
    using ex_run_capped bw5 by simp
  have att: "attach ex_env = 0" by (simp add: ex_env_def)
  have nz: "0 \<notin> set ann" by (rule nonzero_names)
  have te: "table_entry chain_ctx (name_hash ex_env ann) 40"
    unfolding chain_hash by (rule chain_entry)
  have kw: "key_walk chain_ctx ann (name_hash ex_env ann) 40 120"
    unfolding chain_hash by (rule chain_walk_ann)
  have kr: "key_record chain_ctx ann (name_hash ex_env ann) 120 rec_ann_mid"
    unfolding chain_hash by (rule chain_records)
  have m5: "members rec_ann_mid = 5" by (rule chain_fields)
  have live: "\<not> expire rec_ann_mid < now ex_env" by (simp add: chain_fields ex_env_def)
  have grow: "bsize buf22 - start buf22 < uint (members rec_ann_mid)"
    by (simp add: buf22_def m5)
  have ok: "alloc_ok ex_env" by (simp add: ex_env_def)
  have rd: "readable chain_ctx rec_ann_mid (unat (members rec_ann_mid))"
    by (simp add: m5 chain_readable)
  have hyp2: "attach ex_env = 0 \<and> 0 \<notin> set ann
      \<and> table_entry chain_ctx (name_hash ex_env ann) 40
      \<and> key_walk chain_ctx ann (name_hash ex_env ann) 40 120
      \<and> key_record chain_ctx ann (name_hash ex_env ann) 120 rec_ann_mid
      \<and> \<not> expire rec_ann_mid < now ex_env
      \<and> bsize buf22 - start buf22 < uint (members rec_ann_mid)
      \<and> ((0::int) \<le> 0 \<or> bsize buf22 + uint (members rec_ann_mid) \<le> 0)
      \<and> alloc_ok ex_env \<and> buf_within buf22 0
      \<and> readable chain_ctx rec_ann_mid (unat (members rec_ann_mid))"
    using att nz te kw kr live grow ok bw0 rd by simp
  have res: "buf22\<lparr>groups := take (nat (start buf22)) (groups buf22)
                        @ payload_at chain_ctx rec_ann_mid (unat (members rec_ann_mid))
                        @ replicate (length (groups buf22) - nat (start buf22)) (fresh ex_env),
                    bsize := bsize buf22 + uint (members rec_ann_mid),
                    start := start buf22 + uint (members rec_ann_mid)\<rparr>
             = \<lparr>start = 7, bsize = 7, groups = [1, 2, 21, 22, 23, 24, 25]\<rparr>"
    by (simp add: m5 chain_payload) (simp add: buf22_def)
  note inst1 = c5_prefix_preserved [of ex_env ex_ctx ann 3 buf22 5 EOK ex_ctx
      "\<lparr>start = 5, bsize = 5, groups = [1, 2, 21, 22, 23]\<rparr>" 40 120 rec_ann_mid]
  note inst2 = c5_prefix_preserved [of ex_env chain_ctx ann 3 buf22 0 EOK chain_ctx
      "\<lparr>start = 7, bsize = 7, groups = [1, 2, 21, 22, 23, 24, 25]\<rparr>" 40 120 rec_ann_mid]
  have pre: "take (nat (start buf22)) [1, 2, 21, 22, 23] = take (nat (start buf22)) (groups buf22)"
    and keep: "buf_within \<lparr>start = 5, bsize = 5, groups = [1, 2, 21, 22, 23]\<rparr> 5"
    using inst1 hyp1 by simp_all
  have run: "sss_nss_mc_initgroups_dyn ex_env chain_ctx ann (length ann) buf22 0 =
        Some (Inr (EOK, chain_ctx, \<lparr>start = 7, bsize = 7, groups = [1, 2, 21, 22, 23, 24, 25]\<rparr>))"
    using inst2 hyp2 unfolding res by blast
  show ?thesis
    using ex_run_capped bw5 pre keep att nz te kw kr live grow ok bw0 rd run by simp
qed



text \<open>
  Claim C7: for a matching record whose expiry time lies strictly before the current
  time the lookup returns \<^verbatim>\<open>EINVAL\<close> ("expired"), which differs from \<^verbatim>\<open>ENOENT\<close>, and
  leaves the cursor and the contents of the buffer unchanged.
\<close>

theorem c7_expired:
  assumes st: "lookup_starts e ctx nm name_len slot0"
    and re: "chain_reaches ctx nm name_len (key_hash e nm name_len) slot0 t"
    and ma: "chain_match ctx nm name_len (key_hash e nm name_len) t r"
    and ex: "expire r < now e"
  shows "sss_nss_mc_initgroups_dyn e ctx nm name_len buf limit = Some (Inr (EINVAL, ctx, buf))
       \<and> EINVAL \<noteq> ENOENT"
  by (simp add: lookup_found [OF st re ma] parse_result_expired [OF ex] EINVAL_def ENOENT_def)

text \<open>
  Claim C7 at the key \<^verbatim>\<open>bob\<close> with the clock at 2000, after the expiry time 1000.
\<close>

theorem c7_expired_witness:
  "lookup_starts ex_env_late ex_ctx bob 3 0
   \<and> chain_reaches ex_ctx bob 3 (key_hash ex_env_late bob 3) 0 0
   \<and> chain_match ex_ctx bob 3 (key_hash ex_env_late bob 3) 0 rec_bob
   \<and> expire rec_bob < now ex_env_late
   \<and> sss_nss_mc_initgroups_dyn ex_env_late ex_ctx bob 3 buf4 0 = Some (Inr (EINVAL, ex_ctx, buf4))
   \<and> EINVAL \<noteq> ENOENT"
proof -
  have st: "lookup_starts ex_env_late ex_ctx bob 3 0"
    unfolding ex_env_variants by (rule ex_starts)
  have re: "chain_reaches ex_ctx bob 3 (key_hash ex_env_late bob 3) 0 0"
    unfolding ex_env_variants ex_hash by (rule ex_reaches_bob)
  have ma: "chain_match ex_ctx bob 3 (key_hash ex_env_late bob 3) 0 rec_bob"
    unfolding ex_env_variants ex_hash by (rule ex_match_bob)
  have ex: "expire rec_bob < now ex_env_late" by (rule ex_live)
  show ?thesis
    using c7_expired [OF st re ma ex] st re ma ex by simp
qed

text \<open>
  Claim C8: when the buffer (cursor within the capacity) must grow and the allocator
  refuses, the lookup returns
  \<^verbatim>\<open>ENOMEM\<close>, the buffer (contents, capacity and cursor) is unchanged, and the reader
  count is back at its value before the call.
\<close>

theorem c8_allocation_failure:
  assumes st: "lookup_starts e ctx nm name_len slot0"
    and re: "chain_reaches ctx nm name_len (key_hash e nm name_len) slot0 t"
    and ma: "chain_match ctx nm name_len (key_hash e nm name_len) t r"
    and live: "\<not> expire r < now e"
    and wf: "wf_buf buf"
    and grow: "bsize buf - start buf < uint (members r)"
    and fail: "\<not> alloc_ok e"
  shows "sss_nss_mc_initgroups_dyn e ctx nm name_len buf limit = Some (Inr (ENOMEM, ctx, buf))"
  by (simp add: lookup_found [OF st re ma] parse_result_nomem [OF live grow fail])

text \<open>
  Claim C8 at the key \<^verbatim>\<open>ann\<close> with a full buffer of two cells.
\<close>

theorem c8_allocation_failure_witness:
  "lookup_starts ex_env_nomem ex_ctx ann 3 0
   \<and> chain_reaches ex_ctx ann 3 (key_hash ex_env_nomem ann 3) 0 40
   \<and> chain_match ex_ctx ann 3 (key_hash ex_env_nomem ann 3) 40 rec_ann
   \<and> \<not> expire rec_ann < now ex_env_nomem
   \<and> wf_buf buf22
   \<and> bsize buf22 - start buf22 < uint (members rec_ann)
   \<and> \<not> alloc_ok ex_env_nomem
   \<and> sss_nss_mc_initgroups_dyn ex_env_nomem ex_ctx ann 3 buf22 0 =
        Some (Inr (ENOMEM, ex_ctx, buf22))"
proof -
  have st: "lookup_starts ex_env_nomem ex_ctx ann 3 0"
    unfolding ex_env_variants by (rule ex_starts)
  have re: "chain_reaches ex_ctx ann 3 (key_hash ex_env_nomem ann 3) 0 40"
    unfolding ex_env_variants ex_hash by (rule ex_reaches_ann)
  have ma: "chain_match ex_ctx ann 3 (key_hash ex_env_nomem ann 3) 40 rec_ann"
    unfolding ex_env_variants ex_hash by (rule ex_match_ann)
  have live: "\<not> expire rec_ann < now ex_env_nomem" by (rule ex_live)
  have grow: "bsize buf22 - start buf22 < uint (members rec_ann)"
    by (simp add: buf22_def rec_ann_def)
  have wf: "wf_buf buf22" by (simp add: wf_buf_def buf22_def)
  have fail: "\<not> alloc_ok ex_env_nomem" by (simp add: ex_env_nomem_def)
  show ?thesis
    using c8_allocation_failure [OF st re ma live wf grow fail] st re ma live wf grow fail
    by simp
qed

text \<open>
  Claim C9: when the slot that the hash table gives for the key is not within bounds,
  the lookup returns \<^verbatim>\<open>ENOENT\<close> and leaves the buffer unchanged; more generally, so
  does every lookup whose chain walk passes over records until it reaches a slot that
  is not within bounds.
\<close>

theorem c9_not_found:
  assumes st: "lookup_starts e ctx nm name_len slot0"
  shows "(\<not> MC_SLOT_WITHIN_BOUNDS slot0 (dt_size ctx) \<longrightarrow>
            sss_nss_mc_initgroups_dyn e ctx nm name_len buf limit = Some (Inr (ENOENT, ctx, buf)))
       \<and> (chain_reaches ctx nm name_len (key_hash e nm name_len) slot0 t
            \<and> \<not> MC_SLOT_WITHIN_BOUNDS t (dt_size ctx) \<longrightarrow>
            sss_nss_mc_initgroups_dyn e ctx nm name_len buf limit = Some (Inr (ENOENT, ctx, buf)))"
  using lookup_exhausted [OF st] chain_reaches.here by blast

text \<open>
  Claim C9 at the key \<^verbatim>\<open>dan\<close>, whose entry in the hash table is \<^verbatim>\<open>MC_INVALID_VAL\<close>,
  and at the key \<^verbatim>\<open>cat\<close>, whose chain is exhausted after two records.
\<close>

theorem c9_not_found_witness:
  "lookup_starts ex_env ex_ctx dan 3 MC_INVALID_VAL
   \<and> \<not> MC_SLOT_WITHIN_BOUNDS MC_INVALID_VAL (dt_size ex_ctx)
   \<and> sss_nss_mc_initgroups_dyn ex_env ex_ctx dan 3 buf22 0 = Some (Inr (ENOENT, ex_ctx, buf22))
   \<and> lookup_starts ex_env ex_ctx cat 3 0
   \<and> chain_reaches ex_ctx cat 3 (key_hash ex_env cat 3) 0 MC_INVALID_VAL
   \<and> sss_nss_mc_initgroups_dyn ex_env ex_ctx cat 3 buf22 0 = Some (Inr (ENOENT, ex_ctx, buf22))"
proof -
  have st1: "lookup_starts ex_env ex_ctx dan 3 MC_INVALID_VAL" by (rule ex_starts)
  have st2: "lookup_starts ex_env ex_ctx cat 3 0" by (rule ex_starts)
  have re: "chain_reaches ex_ctx cat 3 (key_hash ex_env cat 3) 0 MC_INVALID_VAL"
    unfolding ex_hash by (rule ex_reaches_cat)
  note inv = ex_invalid
  from c9_not_found [OF st1, of buf22 0] inv
  have r1: "sss_nss_mc_initgroups_dyn ex_env ex_ctx dan 3 buf22 0 = Some (Inr (ENOENT, ex_ctx, buf22))"
    by blast
  from c9_not_found [OF st2, of buf22 0 MC_INVALID_VAL] re inv
  have r2: "sss_nss_mc_initgroups_dyn ex_env ex_ctx cat 3 buf22 0 = Some (Inr (ENOENT, ex_ctx, buf22))"
    by blast
  show ?thesis using st1 st2 re inv r1 r2 by simp
qed

text \<open>
  Claim C10: when the matching record is live and the free tail of the buffer already
  holds the payload, all entries of the payload are written at the cursor and the cursor
  advances by the payload count, whatever the hard limit is.
\<close>

theorem c10_limit_only_on_growth:
  assumes st: "lookup_starts e ctx nm name_len slot0"
    and re: "chain_reaches ctx nm name_len (key_hash e nm name_len) slot0 t"
    and ma: "chain_match ctx nm name_len (key_hash e nm name_len) t r"
    and live: "\<not> expire r < now e"
    and fits: "uint (members r) \<le> bsize buf - start buf"
    and wf: "wf_buf buf"
    and rd: "readable ctx r (unat (members r))"
  shows "sss_nss_mc_initgroups_dyn e ctx nm name_len buf limit =
           Some (Inr (EOK, ctx,
             buf\<lparr>groups := take (nat (start buf)) (groups buf) @ payload_at ctx r (unat (members r))
                      @ drop (nat (start buf) + unat (members r)) (groups buf),
                  start := start buf + uint (members r)\<rparr>))"
  by (simp add: lookup_found [OF st re ma] parse_result_fits [OF live fits wf rd] EOK_def)

text \<open>
  Claim C10 at cursor 2, capacity 10, a payload of 5 groups and hard limit 5: the cursor
  advances to 7, beyond the hard limit.
\<close>

theorem c10_limit_only_on_growth_witness:
  "lookup_starts ex_env ex_ctx ann 3 0
   \<and> chain_reaches ex_ctx ann 3 (key_hash ex_env ann 3) 0 40
   \<and> chain_match ex_ctx ann 3 (key_hash ex_env ann 3) 40 rec_ann
   \<and> \<not> expire rec_ann < now ex_env
   \<and> uint (members rec_ann) \<le> bsize buf10 - start buf10
   \<and> wf_buf buf10 \<and> readable ex_ctx rec_ann (unat (members rec_ann))
   \<and> (0::int) < 5 \<and> 5 < start buf10 + uint (members rec_ann)
   \<and> sss_nss_mc_initgroups_dyn ex_env ex_ctx ann 3 buf10 5 =
        Some (Inr (EOK, ex_ctx,
          \<lparr>start = 7, bsize = 10, groups = [1, 2, 21, 22, 23, 24, 25, 8, 9, 10]\<rparr>))"
proof -
  have st: "lookup_starts ex_env ex_ctx ann 3 0" by (rule ex_starts)
  have re: "chain_reaches ex_ctx ann 3 (key_hash ex_env ann 3) 0 40"
    unfolding ex_hash by (rule ex_reaches_ann)
  have ma: "chain_match ex_ctx ann 3 (key_hash ex_env ann 3) 40 rec_ann"
    unfolding ex_hash by (rule ex_match_ann)
  have live: "\<not> expire rec_ann < now ex_env" by (rule ex_live)
  have m5: "members rec_ann = 5" by (simp add: rec_ann_def)
  have fits: "uint (members rec_ann) \<le> bsize buf10 - start buf10"
    by (simp add: buf10_def m5)
  have wf: "wf_buf buf10" by (simp add: wf_buf_def buf10_def)
  have rd: "readable ex_ctx rec_ann (unat (members rec_ann))"
    by (simp add: m5 ex_readable)
  have over: "(0::int) < 5" "5 < start buf10 + uint (members rec_ann)"
    by (simp_all add: buf10_def m5)
  have res: "buf10\<lparr>groups := take (nat (start buf10)) (groups buf10)
                        @ payload_at ex_ctx rec_ann (unat (members rec_ann))
                        @ drop (nat (start buf10) + unat (members rec_ann)) (groups buf10),
                    start := start buf10 + uint (members rec_ann)\<rparr>
             = \<lparr>start = 7, bsize = 10, groups = [1, 2, 21, 22, 23, 24, 25, 8, 9, 10]\<rparr>"
    by (simp add: m5 ex_payload_ann) (simp add: buf10_def)
  show ?thesis
    using c10_limit_only_on_growth [OF st re ma live fits wf rd, of 5] st re ma live fits wf rd over
    by (simp only: res simp_thms)
qed

end
